theory Spec2Isabelle
  imports Main "HOL-Library.Sublist"
begin

section \<open>The Broker: subscription registry and notification engine\<close>

text \<open>
  The repository holds two versions of the Broker's \<^verbatim>\<open>useCore\<close>:
  \<^item> \<^verbatim>\<open>src/Broker.tsx\<close>, where the pending updates are view-layer state
    (\<^verbatim>\<open>useState\<close>) that a flag \<^verbatim>\<open>resetUpdates\<close> marks as consumed; definitions
    for it carry the suffix 1;
  \<^item> the second module of \<^verbatim>\<open>src/Subscription.tsx\<close>, where the pending updates are an
    array local to one run of \<^verbatim>\<open>useCore\<close> and a writer object is memoised;
    definitions for it carry the suffix 2.
  \<^verbatim>\<open>subscribe\<close>, \<^verbatim>\<open>unsubscribe\<close> and the notification loops are the same text in
  both and are modelled once, over the fields both versions share.

  A callback is a function object; \<^verbatim>\<open>indexOf\<close> compares callbacks by identity, so a
  callback is modelled by its identity, a natural number. What a callback does when it
  is invoked is outside the engine, except for what the engine can observe: the
  invocation itself, recorded in the ghost field \<open>calls\<close>, and calls back into
  \<^verbatim>\<open>unsubscribe\<close>, given by a behaviour function. Callbacks that call
  \<^verbatim>\<open>subscribe\<close> or throw are not modelled.
\<close>

subsection \<open>Values of the source\<close>

type_synonym ident = string

type_synonym sub = nat

text \<open>\<^verbatim>\<open>ids: string | string[]\<close> and \<^verbatim>\<open>Array.isArray(ids) ? ids : [ids]\<close>.\<close>

datatype ids = One ident | Many "ident list"

fun unscalar :: "ids \<Rightarrow> ident list" where
  "unscalar (One x) = [x]"
| "unscalar (Many xs) = xs"

text \<open>
  A thrown exception leaves the mutable state as it was at the throw, so an operation
  returns the state in both cases. The value that the state-producing hook throws is
  opaque to the engine and is represented by a name.
\<close>

type_synonym thrown = string

datatype error = TypeError | HookThrew thrown

datatype 'c outcome = Done 'c | Threw error 'c

fun world :: "'c outcome \<Rightarrow> 'c" where
  "world (Done c) = c"
| "world (Threw e c) = c"

fun andThen :: "'c outcome \<Rightarrow> ('c \<Rightarrow> 'c outcome) \<Rightarrow> 'c outcome" where
  "andThen (Done c) f = f c"
| "andThen (Threw e c) f = Threw e c"

text \<open>\<^verbatim>\<open>for (const x of xs) body(x)\<close> over an array that the body does not change.\<close>

fun forEach :: "('a \<Rightarrow> 'c \<Rightarrow> 'c outcome) \<Rightarrow> 'a list \<Rightarrow> 'c \<Rightarrow> 'c outcome" where
  "forEach body [] c = Done c"
| "forEach body (x # xs) c = andThen (body x c) (forEach body xs)"

subsection \<open>The registry object\<close>

text \<open>
  \<^verbatim>\<open>subs.current\<close> is created by the object literal \<^verbatim>\<open>{}\<close>, so reading
  \<^verbatim>\<open>subs.current[id]\<close> gives the array stored under \<open>id\<close> when there is one, and
  otherwise follows the prototype chain: for the property names of
  \<^verbatim>\<open>Object.prototype\<close> the result is neither \<^verbatim>\<open>undefined\<close> nor an array.
\<close>

definition objectPrototypeKeys :: "ident list" where
  "objectPrototypeKeys =
     [''constructor'', ''__proto__'', ''hasOwnProperty'', ''isPrototypeOf'',
      ''propertyIsEnumerable'', ''toLocaleString'', ''toString'', ''valueOf'',
      ''__defineGetter__'', ''__defineSetter__'', ''__lookupGetter__'',
      ''__lookupSetter__'']"

datatype 'a property = Undefined | Own 'a | Inherited

definition getProp :: "(ident \<rightharpoonup> 'a) \<Rightarrow> ident \<Rightarrow> 'a property" where
  "getProp obj k =
     (case obj k of
        Some v \<Rightarrow> Own v
      | None \<Rightarrow> if k \<in> set objectPrototypeKeys then Inherited else Undefined)"

text \<open>
  The state both versions share: the registry \<^verbatim>\<open>subs.current\<close>, the snapshot
  \<^verbatim>\<open>ref.current\<close>, and the log of callback invocations \<open>(f, s)\<close> for each call
  \<^verbatim>\<open>f(s)\<close>, oldest first.
\<close>

record 's core =
  subs :: "ident \<rightharpoonup> sub list"
  ref :: 's
  calls :: "(sub \<times> 's) list"

definition registered :: "('s, 'z) core_scheme \<Rightarrow> ident \<Rightarrow> sub list" where
  "registered c k = (case subs c k of None \<Rightarrow> [] | Some cbs \<Rightarrow> cbs)"

definition invocations :: "sub \<Rightarrow> (sub \<times> 's) list \<Rightarrow> nat" where
  "invocations f log = length (filter (\<lambda>p. fst p = f) log)"

subsection \<open>unsubscribe\<close>

text \<open>\<^verbatim>\<open>s.indexOf(sub)\<close> and \<^verbatim>\<open>s.splice(index, 1)\<close>.\<close>

fun indexOf :: "'a list \<Rightarrow> 'a \<Rightarrow> int" where
  "indexOf [] x = - 1"
| "indexOf (y # ys) x =
     (if y = x then 0 else (let i = indexOf ys x in if i = - 1 then - 1 else i + 1))"

definition splice1 :: "nat \<Rightarrow> 'a list \<Rightarrow> 'a list" where
  "splice1 i xs = take i xs @ drop (Suc i) xs"

text \<open>
  The body of the loop of \<^verbatim>\<open>unsubscribe\<close>. On an inherited property
  \<^verbatim>\<open>s.indexOf\<close> is not a function and the call throws a TypeError.
\<close>

definition unsubscribe_id ::
  "sub \<Rightarrow> ident \<Rightarrow> ('s, 'z) core_scheme \<Rightarrow> ('s, 'z) core_scheme outcome" where
  "unsubscribe_id f k c =
     (case getProp (subs c) k of
        Undefined \<Rightarrow> Done c
      | Inherited \<Rightarrow> Threw TypeError c
      | Own s \<Rightarrow>
          (let index = indexOf s f
           in if index \<noteq> - 1
              then Done (c\<lparr>subs := (subs c)(k \<mapsto> splice1 (nat index) s)\<rparr>)
              else Done c))"

definition unsubscribe ::
  "ids \<Rightarrow> sub \<Rightarrow> ('s, 'z) core_scheme \<Rightarrow> ('s, 'z) core_scheme outcome" where
  "unsubscribe is f c = forEach (unsubscribe_id f) (unscalar is) c"

subsection \<open>Invoking a callback\<close>

text \<open>
  \<open>beh f s\<close> lists the \<^verbatim>\<open>unsubscribe(ids, g)\<close> calls that callback \<open>f\<close> makes, in
  order, when it is invoked with state \<open>s\<close>. The callbacks the repository itself
  registers are state setters of the view layer and make none (\<open>inert\<close>).
\<close>

type_synonym 's behaviour = "sub \<Rightarrow> 's \<Rightarrow> (ids \<times> sub) list"

definition inert :: "'s behaviour" where
  "inert f s = []"

text \<open>
  The behaviour in which callback \<open>g\<close> calls \<^verbatim>\<open>unsubscribe(k, g)\<close> on itself whenever
  it is invoked, and no other callback unsubscribes anything.
\<close>

definition leavesWhenCalled :: "ident \<Rightarrow> sub \<Rightarrow> 's behaviour" where
  "leavesWhenCalled k g f s = (if f = g then [(One k, g)] else [])"

definition invoke ::
  "'s behaviour \<Rightarrow> sub \<Rightarrow> 's \<Rightarrow> ('s, 'z) core_scheme \<Rightarrow> ('s, 'z) core_scheme outcome" where
  "invoke beh f s c =
     forEach (\<lambda>u. unsubscribe (fst u) (snd u)) (beh f s) (c\<lparr>calls := calls c @ [(f, s)]\<rparr>)"

subsection \<open>subscribe\<close>

text \<open>
  The body of the loop of \<^verbatim>\<open>subscribe\<close>. On an inherited property \<open>s\<close> is not
  \<^verbatim>\<open>undefined\<close>, no array is created, and \<^verbatim>\<open>s.push\<close> is not a function.
\<close>

definition subscribe_id ::
  "sub \<Rightarrow> ident \<Rightarrow> ('s, 'z) core_scheme \<Rightarrow> ('s, 'z) core_scheme outcome" where
  "subscribe_id f k c =
     (case getProp (subs c) k of
        Undefined \<Rightarrow> Done (c\<lparr>subs := (subs c)(k \<mapsto> [f])\<rparr>)
      | Own s \<Rightarrow> Done (c\<lparr>subs := (subs c)(k \<mapsto> s @ [f])\<rparr>)
      | Inherited \<Rightarrow> Threw TypeError c)"

definition subscribe ::
  "'s behaviour \<Rightarrow> ids \<Rightarrow> sub \<Rightarrow> ('s, 'z) core_scheme \<Rightarrow> ('s, 'z) core_scheme outcome" where
  "subscribe beh is f c =
     andThen (forEach (subscribe_id f) (unscalar is) c) (\<lambda>c'. invoke beh f (ref c') c')"

subsection \<open>The notification pass\<close>

text \<open>
  \<^verbatim>\<open>for (const f of cbs) f(ref.current)\<close>. The array iterator keeps a position and
  compares it with the current length of the array at every step, and
  \<^verbatim>\<open>unsubscribe\<close> shortens that same array in place, so the loop reads the live
  list. The array stored under an identifier is never replaced by another one, so the
  model reads it from the registry at every step. \<open>i\<close> is the iterator's position.
\<close>

function notifyFrom ::
  "'s behaviour \<Rightarrow> ident \<Rightarrow> nat \<Rightarrow> ('s, 'z) core_scheme \<Rightarrow> ('s, 'z) core_scheme outcome" where
  "notifyFrom beh k i c =
     (case subs c k of
        None \<Rightarrow> Done c
      | Some cbs \<Rightarrow>
          if i < length cbs
          then (case invoke beh (cbs ! i) (ref c) c of
                  Done c' \<Rightarrow> notifyFrom beh k (Suc i) c'
                | Threw e c' \<Rightarrow> Threw e c')
          else Done c)"
  by pat_completeness auto

text \<open>
  The body of \<^verbatim>\<open>for (const id of updates)\<close>: an inherited property is not
  \<^verbatim>\<open>undefined\<close> and is not iterable, so \<^verbatim>\<open>for ... of\<close> throws a TypeError.
\<close>

definition notify ::
  "'s behaviour \<Rightarrow> ident \<Rightarrow> ('s, 'z) core_scheme \<Rightarrow> ('s, 'z) core_scheme outcome" where
  "notify beh k c =
     (case getProp (subs c) k of
        Undefined \<Rightarrow> Done c
      | Own cbs \<Rightarrow> notifyFrom beh k 0 c
      | Inherited \<Rightarrow> Threw TypeError c)"

definition notifyAll ::
  "'s behaviour \<Rightarrow> ident list \<Rightarrow> ('s, 'z) core_scheme \<Rightarrow> ('s, 'z) core_scheme outcome" where
  "notifyAll beh us c = forEach (notify beh) us c"

subsection \<open>\<^verbatim>\<open>useCore\<close> of \<^verbatim>\<open>src/Broker.tsx\<close>\<close>

text \<open>
  One run of the state-producing hook: it returns the next state after calling
  \<^verbatim>\<open>update\<close> on some identifiers, or throws after calling it on some.
\<close>

datatype 's hookRun1 = Returns1 's "ident list" | Throws1 thrown "ident list"

record 's core1 = "'s core" +
  resetUpdates :: bool
  updates :: "ident list"

definition update :: "ident \<Rightarrow> 's core1 \<Rightarrow> 's core1" where
  "update k c =
     (if resetUpdates c
      then c\<lparr>resetUpdates := False, updates := [k]\<rparr>
      else c\<lparr>updates := updates c @ [k]\<rparr>)"

text \<open>The effect \<^verbatim>\<open>useEffect(() => {...}, [state, updates])\<close>.\<close>

definition effect1 :: "'s behaviour \<Rightarrow> 's \<Rightarrow> 's core1 \<Rightarrow> 's core1 outcome" where
  "effect1 beh state c =
     (let c1 = c\<lparr>ref := state\<rparr>
      in if length (updates c1) > 0
         then andThen (notifyAll beh (updates c1) c1) (\<lambda>c2. Done (c2\<lparr>resetUpdates := True\<rparr>))
         else Done c1)"

text \<open>
  One committed render. The view layer runs the effect when \<^verbatim>\<open>state\<close> or
  \<^verbatim>\<open>updates\<close> is not the value of the previous render. Every call of
  \<^verbatim>\<open>setUpdates\<close> stores a new array, so \<^verbatim>\<open>updates\<close> changed exactly when an
  identifier was emitted; the \<^verbatim>\<open>state\<close> of the previous render is
  \<^verbatim>\<open>ref.current\<close>, which the effect set then. Identity of states is equality of
  \<open>'s\<close>. When the hook throws, \<^verbatim>\<open>useCore\<close> is left at that line: no effect runs;
  the calls of \<^verbatim>\<open>update\<close> made before the throw have happened.
\<close>

definition useCore1 :: "'s behaviour \<Rightarrow> 's hookRun1 \<Rightarrow> 's core1 \<Rightarrow> 's core1 outcome" where
  "useCore1 beh run c =
     (case run of
        Throws1 e emitted \<Rightarrow> Threw (HookThrew e) (fold update emitted c)
      | Returns1 state emitted \<Rightarrow>
          (let c1 = fold update emitted c
           in if state \<noteq> ref c \<or> emitted \<noteq> [] then effect1 beh state c1 else Done c1))"

text \<open>The hook state after the first render of a hook that returns \<open>state\<close>.\<close>

definition init1 :: "'s \<Rightarrow> 's core1" where
  "init1 state =
     \<lparr>subs = Map.empty, ref = state, calls = [], resetUpdates = False, updates = []\<rparr>"

definition renders1 :: "'s behaviour \<Rightarrow> 's hookRun1 list \<Rightarrow> 's core1 \<Rightarrow> 's core1" where
  "renders1 beh runs c = foldl (\<lambda>c' run. world (useCore1 beh run c')) c runs"

subsection \<open>\<^verbatim>\<open>useCore\<close> of \<^verbatim>\<open>src/Subscription.tsx\<close>, with the writer\<close>

text \<open>
  A value of the source is a string or something else; \<^verbatim>\<open>Object.is\<close> is equality.
  An object is its identity and its enumerable properties in the order in which
  \<^verbatim>\<open>for ... in\<close> visits them (property names are distinct).
\<close>

datatype 'v jsval = Str string | Val 'v

record 'v obj =
  oid :: nat
  props :: "(string \<times> 'v jsval) list"

definition objectUnpack :: "'v obj \<Rightarrow> 'v jsval list" where
  "objectUnpack obj =
     (let keys = map (\<lambda>kv. Str (fst kv)) (props obj);
          values = map snd (props obj)
      in keys @ values)"

text \<open>
  \<^verbatim>\<open>useMemo\<close> belongs to the view layer: it keeps the value and the dependency
  array of the last computation and compares the new array with the kept one position
  by position, as far as the shorter of the two reaches.
\<close>

fun areHookInputsEqual :: "'a list \<Rightarrow> 'a list \<Rightarrow> bool" where
  "areHookInputsEqual (x # xs) (y # ys) = (x = y \<and> areHookInputsEqual xs ys)"
| "areHookInputsEqual xs ys = True"

definition useMemo :: "'a \<Rightarrow> 'd list \<Rightarrow> 'a \<times> 'd list \<Rightarrow> 'a \<times> 'd list" where
  "useMemo create deps memo =
     (if areHookInputsEqual deps (snd memo) then memo else (create, deps))"

datatype ('s, 'v) hookRun2 = Returns2 's "'v obj" "ident list" | Throws2 thrown "ident list"

text \<open>\<open>writer\<close> is the memoised \<^verbatim>\<open>w\<close> that \<^verbatim>\<open>useCore\<close> returns as \<^verbatim>\<open>ctx.writer\<close>.\<close>

record ('s, 'v) core2 = "'s core" +
  writer :: "'v obj"
  writerDeps :: "'v jsval list"

text \<open>
  One render: \<^verbatim>\<open>updates\<close> is a new array, filled by the hook; \<^verbatim>\<open>useMemo\<close> runs
  during the render; then the effect on \<^verbatim>\<open>[state]\<close> (setting \<^verbatim>\<open>ref.current\<close>
  to a state it already holds changes nothing) and the effect on \<^verbatim>\<open>[updates]\<close>,
  which runs after every render because the array is new.
\<close>

definition useCore2 ::
  "'s behaviour \<Rightarrow> ('s, 'v) hookRun2 \<Rightarrow> ('s, 'v) core2 \<Rightarrow> ('s, 'v) core2 outcome" where
  "useCore2 beh run c =
     (case run of
        Throws2 e emitted \<Rightarrow> Threw (HookThrew e) c
      | Returns2 state wr emitted \<Rightarrow>
          (let memo = useMemo wr (objectUnpack wr) (writer c, writerDeps c);
               c1 = c\<lparr>writer := fst memo, writerDeps := snd memo\<rparr>;
               c2 = c1\<lparr>ref := state\<rparr>
           in notifyAll beh emitted c2))"

definition init2 :: "'s \<Rightarrow> 'v obj \<Rightarrow> ('s, 'v) core2" where
  "init2 state wr =
     \<lparr>subs = Map.empty, ref = state, calls = [], writer = wr, writerDeps = objectUnpack wr\<rparr>"

definition renders2 ::
  "'s behaviour \<Rightarrow> ('s, 'v) hookRun2 list \<Rightarrow> ('s, 'v) core2 \<Rightarrow> ('s, 'v) core2" where
  "renders2 beh runs c = foldl (\<lambda>c' run. world (useCore2 beh run c')) c runs"

subsection \<open>Relations used in the proofs\<close>

text \<open>
  \<open>thinned ys xs\<close>: \<open>ys\<close> is \<open>xs\<close> with entries removed, seen from every position
  of the iterator. \<open>shrunk m' m\<close>: the registry \<open>m'\<close> has the lists of \<open>m\<close>, thinned.
  \<open>after c' c\<close>: \<open>c'\<close> differs from \<open>c\<close> by removed entries only.
  \<open>reaches c gs c'\<close>: from \<open>c\<close> the engine invoked the callbacks \<open>gs\<close>, in this
  order and each with the snapshot of \<open>c\<close>, and ended in \<open>c'\<close>.
  \<open>unregistered f c\<close>: no list holds \<open>f\<close>. \<open>idle c\<close>: in \<^verbatim>\<open>src/Broker.tsx\<close>, the
  pending identifiers, if any, are marked as consumed.
\<close>

definition thinned :: "'a list \<Rightarrow> 'a list \<Rightarrow> bool" where
  "thinned ys xs \<longleftrightarrow> (\<forall>k. subseq (drop k ys) (drop k xs))"

definition shrunk :: "(ident \<rightharpoonup> 'a list) \<Rightarrow> (ident \<rightharpoonup> 'a list) \<Rightarrow> bool" where
  "shrunk m' m \<longleftrightarrow>
     (\<forall>k. case m k of None \<Rightarrow> m' k = None | Some xs \<Rightarrow> (\<exists>ys. m' k = Some ys \<and> thinned ys xs))"

definition after :: "('s, 'z) core_scheme \<Rightarrow> ('s, 'z) core_scheme \<Rightarrow> bool" where
  "after c' c \<longleftrightarrow> ref c' = ref c \<and> calls c' = calls c \<and> shrunk (subs c') (subs c)"

definition reaches :: "('s, 'z) core_scheme \<Rightarrow> sub list \<Rightarrow> ('s, 'z) core_scheme \<Rightarrow> bool" where
  "reaches c gs c' \<longleftrightarrow>
     calls c' = calls c @ map (\<lambda>g. (g, ref c)) gs \<and> ref c' = ref c \<and> shrunk (subs c') (subs c)"

definition unregistered :: "sub \<Rightarrow> ('s, 'z) core_scheme \<Rightarrow> bool" where
  "unregistered f c \<longleftrightarrow> (\<forall>k. f \<notin> set (registered c k))"

definition idle :: "'s core1 \<Rightarrow> bool" where
  "idle c \<longleftrightarrow> resetUpdates c \<or> updates c = []"

section \<open>Properties of the registry operations\<close>

subsection \<open>Removing the first occurrence\<close>

lemma indexOf_conv:
  "indexOf xs x = (if x \<in> set xs then int (length (takeWhile (\<lambda>y. y \<noteq> x) xs)) else - 1)"
  by (induction xs) (auto simp: Let_def)

lemma indexOf_absent: "indexOf xs x = - 1 \<longleftrightarrow> x \<notin> set xs"
  by (simp add: indexOf_conv)

lemma splice1_indexOf:
  "x \<in> set xs \<Longrightarrow> splice1 (nat (indexOf xs x)) xs = remove1 x xs"
  by (induction xs) (auto simp: splice1_def indexOf_conv)

lemma remove1_once: "count_list xs x \<le> 1 \<Longrightarrow> x \<notin> set (remove1 x xs)"
  by (induction xs) (auto simp: count_list_0_iff split: if_splits)

lemma subseq_drop_Suc: "subseq (drop (Suc k) xs) (drop k xs)"
proof -
  have "subseq (drop 1 ys) ys" for ys :: "'a list"
    by (cases ys) auto
  from this [of "drop k xs"] show ?thesis by simp
qed

lemma thinned_refl: "thinned xs xs"
  by (simp add: thinned_def)

lemma thinned_trans: "thinned zs ys \<Longrightarrow> thinned ys xs \<Longrightarrow> thinned zs xs"
  unfolding thinned_def by (meson subseq_order.trans)

lemma thinned_remove1: "thinned (remove1 x xs) xs"
  unfolding thinned_def
proof
  fix k show "subseq (drop k (remove1 x xs)) (drop k xs)"
  proof (induction xs arbitrary: k)
    case Nil
    then show ?case by simp
  next
    case (Cons y ys)
    show ?case
    proof (cases k)
      case 0
      then show ?thesis using Cons [of 0] by auto
    next
      case (Suc j)
      then show ?thesis using Cons [of j] subseq_drop_Suc [of j ys] by auto
    qed
  qed
qed

lemma thinned_subseq: "thinned ys xs \<Longrightarrow> subseq ys xs"
  unfolding thinned_def by (metis drop0)

lemma thinned_length: "thinned ys xs \<Longrightarrow> length ys \<le> length xs"
  by (meson list_emb_length thinned_subseq)

lemma shrunk_refl: "shrunk m m"
  by (auto simp: shrunk_def thinned_refl split: option.splits)

lemma shrunk_trans:
  assumes "shrunk m'' m'" and "shrunk m' m"
  shows "shrunk m'' m"
  unfolding shrunk_def
proof
  fix k
  show "case m k of None \<Rightarrow> m'' k = None | Some xs \<Rightarrow> \<exists>ys. m'' k = Some ys \<and> thinned ys xs"
  proof (cases "m k")
    case None
    with assms(2) have "m' k = None"
      by (auto simp: shrunk_def split: option.splits dest: spec [of _ k])
    with assms(1) have "m'' k = None"
      by (auto simp: shrunk_def split: option.splits dest: spec [of _ k])
    with None show ?thesis by simp
  next
    case (Some xs)
    with assms(2) obtain ys where ys: "m' k = Some ys" "thinned ys xs"
      by (auto simp: shrunk_def split: option.splits dest: spec [of _ k])
    with assms(1) obtain zs where zs: "m'' k = Some zs" "thinned zs ys"
      by (auto simp: shrunk_def split: option.splits dest: spec [of _ k])
    from zs(2) ys(2) have "thinned zs xs" by (rule thinned_trans)
    with Some zs(1) show ?thesis by simp
  qed
qed

lemma shrunk_None: "shrunk m' m \<Longrightarrow> m k = None \<Longrightarrow> m' k = None"
  by (auto simp: shrunk_def split: option.splits dest: spec [of _ k])

lemma shrunk_Some: "shrunk m' m \<Longrightarrow> m k = Some xs \<Longrightarrow> \<exists>ys. m' k = Some ys \<and> thinned ys xs"
  by (auto simp: shrunk_def split: option.splits dest: spec [of _ k])

lemma shrunk_registered:
  assumes "shrunk (subs c') (subs c)"
  shows "thinned (registered c' k) (registered c k)"
proof (cases "subs c k")
  case None
  with assms have "subs c' k = None" by (simp add: shrunk_None)
  with None show ?thesis by (simp add: registered_def thinned_refl)
next
  case (Some xs)
  with assms obtain ys where "subs c' k = Some ys" "thinned ys xs"
    using shrunk_Some by blast
  with Some show ?thesis by (simp add: registered_def)
qed

lemma shrunk_registered_set:
  assumes "shrunk (subs c') (subs c)"
  shows "set (registered c' k) \<subseteq> set (registered c k)"
proof -
  have "subseq (registered c' k) (registered c k)"
    using assms by (intro thinned_subseq shrunk_registered)
  then show ?thesis by (auto dest: list_emb_set)
qed

subsection \<open>unsubscribe and the invocation of a callback\<close>

lemma world_unsubscribe_id:
  "world (unsubscribe_id f k c) = c\<lparr>subs := (subs c)(k := map_option (remove1 f) (subs c k))\<rparr>"
proof (cases "subs c k")
  case None
  then have "(subs c)(k := None) = subs c" by (simp add: fun_upd_idem)
  with None show ?thesis by (simp add: unsubscribe_id_def getProp_def)
next
  case (Some s)
  show ?thesis
  proof (cases "f \<in> set s")
    case True
    with Some show ?thesis
      by (simp add: unsubscribe_id_def getProp_def Let_def indexOf_absent splice1_indexOf)
  next
    case False
    then have "remove1 f s = s" by (simp add: remove1_idem)
    with Some have "(subs c)(k := map_option (remove1 f) (subs c k)) = subs c"
      by (simp add: fun_upd_idem)
    with Some False show ?thesis
      by (simp add: unsubscribe_id_def getProp_def Let_def indexOf_absent)
  qed
qed

lemma forEach_world_induct:
  assumes "P c" and "\<And>x c. x \<in> set xs \<Longrightarrow> P c \<Longrightarrow> P (world (body x c))"
  shows "P (world (forEach body xs c))"
  using assms
proof (induction xs arbitrary: c)
  case Nil
  then show ?case by simp
next
  case (Cons x xs)
  have step: "P (world (body x c))" using Cons.prems by simp
  show ?case
  proof (cases "body x c")
    case (Done c')
    with step Cons show ?thesis by simp
  next
    case (Threw e c')
    with step show ?thesis by simp
  qed
qed

lemma after_unsubscribe_id: "after (world (unsubscribe_id f k c)) c"
  by (auto simp: world_unsubscribe_id after_def shrunk_def thinned_refl thinned_remove1 split: option.splits)

lemma after_trans: "after c'' c' \<Longrightarrow> after c' c \<Longrightarrow> after c'' c"
  by (auto simp: after_def intro: shrunk_trans)

lemma after_unsubscribe: "after (world (unsubscribe is f c)) c"
  unfolding unsubscribe_def
proof (rule forEach_world_induct [where P = "\<lambda>c'. after c' c"])
  show "after c c" by (simp add: after_def shrunk_refl)
next
  fix x c' assume "after c' c"
  with after_unsubscribe_id [of f x c'] show "after (world (unsubscribe_id f x c')) c"
    by (rule after_trans)
qed

lemma unsubscribe_One: "unsubscribe (One k) f c = unsubscribe_id f k c"
  by (cases "unsubscribe_id f k c :: ('a, 'b) core_scheme outcome") (simp_all add: unsubscribe_def)

lemma unsubscribe_id_Done:
  assumes "getProp (subs c) k \<noteq> Inherited"
  shows "unsubscribe_id f k c = Done (c\<lparr>subs := (subs c)(k := map_option (remove1 f) (subs c k))\<rparr>)"
proof -
  have "\<exists>c'. unsubscribe_id f k c = Done c'"
    using assms by (cases "getProp (subs c) k") (simp_all add: unsubscribe_id_def Let_def)
  with world_unsubscribe_id [of f k c] show ?thesis by auto
qed

lemma invoke_world:
  "ref (world (invoke beh f s c)) = ref c \<and>
   calls (world (invoke beh f s c)) = calls c @ [(f, s)] \<and>
   shrunk (subs (world (invoke beh f s c))) (subs c)"
proof -
  let ?c0 = "c\<lparr>calls := calls c @ [(f, s)]\<rparr>"
  have "after (world (invoke beh f s c)) ?c0"
    unfolding invoke_def
  proof (rule forEach_world_induct [where P = "\<lambda>c'. after c' ?c0"])
    show "after ?c0 ?c0" by (simp add: after_def shrunk_refl)
  next
    fix u c' assume "after c' ?c0"
    with after_unsubscribe [of "fst u" "snd u" c']
    show "after (world (unsubscribe (fst u) (snd u) c')) ?c0"
      by (rule after_trans)
  qed
  then show ?thesis by (simp add: after_def)
qed

lemma invoke_quiet:
  "beh f s = [] \<Longrightarrow> invoke beh f s c = Done (c\<lparr>calls := calls c @ [(f, s)]\<rparr>)"
  by (simp add: invoke_def)

lemma invoke_registered_length:
  assumes "invoke beh f s c = Done c'"
  shows "length (registered c' k) \<le> length (registered c k)"
proof -
  from invoke_world [of beh f s c] assms have sh: "shrunk (subs c') (subs c)" by simp
  show ?thesis
  proof (cases "subs c k")
    case None
    with sh have "subs c' k = None" by (simp add: shrunk_None)
    with None show ?thesis by (simp add: registered_def)
  next
    case (Some xs)
    with sh obtain ys where "subs c' k = Some ys" "thinned ys xs"
      using shrunk_Some by blast
    with Some show ?thesis by (simp add: registered_def thinned_length)
  qed
qed

subsection \<open>The notification loop ends\<close>

text \<open>A callback can only shorten the list, and the position grows.\<close>

termination notifyFrom
proof (relation "measure (\<lambda>(beh, k, i, c). length (registered c k) - i)")
  show "wf (measure (\<lambda>(beh, k, i, c). length (registered c k) - i))" by simp
next
  fix beh :: "'s behaviour" and k i and c c' :: "('s, 'z) core_scheme" and cbs
  assume s: "subs c k = Some cbs" and i: "i < length cbs"
    and inv: "invoke beh (cbs ! i) (ref c) c = Done c'"
  from invoke_registered_length [OF inv, of k] s i
  show "((beh, k, Suc i, c'), (beh, k, i, c)) \<in> measure (\<lambda>(beh, k, i, c). length (registered c k) - i)"
    by (simp add: registered_def)
qed

declare notifyFrom.simps [simp del]

subsection \<open>What a notification pass invokes\<close>

lemma notifyFrom_trace:
  "\<exists>gs. calls (world (notifyFrom beh k i c)) = calls c @ map (\<lambda>g. (g, ref c)) gs \<and>
        subseq gs (drop i (registered c k)) \<and>
        ref (world (notifyFrom beh k i c)) = ref c \<and>
        shrunk (subs (world (notifyFrom beh k i c))) (subs c)"
proof (induction beh k i c rule: notifyFrom.induct)
  case (1 beh k i c)
  show ?case
  proof (cases "subs c k")
    case None
    then show ?thesis
      by (simp add: notifyFrom.simps [of beh k i c] shrunk_refl)
  next
    case (Some cbs)
    show ?thesis
    proof (cases "i < length cbs")
      case False
      with Some show ?thesis
        by (simp add: notifyFrom.simps [of beh k i c] shrunk_refl)
    next
      case True
      let ?f = "cbs ! i"
      let ?r = "invoke beh ?f (ref c) c"
      note w = invoke_world [of beh ?f "ref c" c]
      have dr: "drop i cbs = ?f # drop (Suc i) cbs"
        using True by (simp add: Cons_nth_drop_Suc)
      show ?thesis
      proof (cases ?r)
        case (Threw e c')
        with Some True have eq: "notifyFrom beh k i c = Threw e c'"
          by (simp add: notifyFrom.simps [of beh k i c])
        from w Threw have "calls c' = calls c @ map (\<lambda>g. (g, ref c)) [?f]"
          and "ref c' = ref c" and "shrunk (subs c') (subs c)" by simp_all
        moreover have "subseq [?f] (drop i (registered c k))"
          using Some dr by (simp add: registered_def)
        ultimately show ?thesis unfolding eq world.simps by blast
      next
        case (Done c')
        with Some True have eq: "notifyFrom beh k i c = notifyFrom beh k (Suc i) c'"
          by (simp add: notifyFrom.simps [of beh k i c])
        from w Done have c': "calls c' = calls c @ [(?f, ref c)]"
          "ref c' = ref c" "shrunk (subs c') (subs c)" by simp_all
        from "1.IH" [OF Some True Done] obtain gs where
          gs: "calls (world (notifyFrom beh k (Suc i) c')) = calls c' @ map (\<lambda>g. (g, ref c')) gs"
            "subseq gs (drop (Suc i) (registered c' k))"
            "ref (world (notifyFrom beh k (Suc i) c')) = ref c'"
            "shrunk (subs (world (notifyFrom beh k (Suc i) c'))) (subs c')"
          by blast
        from c'(3) Some obtain ys where ys: "subs c' k = Some ys" "thinned ys cbs"
          using shrunk_Some by blast
        then have "subseq (drop (Suc i) (registered c' k)) (drop (Suc i) cbs)"
          by (simp add: registered_def thinned_def)
        with gs(2) have "subseq gs (drop (Suc i) cbs)"
          by (rule subseq_order.trans)
        then have "subseq (?f # gs) (drop i (registered c k))"
          using Some dr by (simp add: registered_def)
        moreover have "calls (world (notifyFrom beh k i c)) = calls c @ map (\<lambda>g. (g, ref c)) (?f # gs)"
          using gs(1) c' by (simp add: eq)
        moreover have "ref (world (notifyFrom beh k i c)) = ref c"
          using gs(3) c' by (simp add: eq)
        moreover have "shrunk (subs (world (notifyFrom beh k i c))) (subs c)"
          using gs(4) c'(3) unfolding eq by (rule shrunk_trans)
        ultimately show ?thesis by blast
      qed
    qed
  qed
qed

lemma reaches_refl: "reaches c [] c"
  by (simp add: reaches_def shrunk_refl)

lemma reaches_trans: "reaches c gs c' \<Longrightarrow> reaches c' hs c'' \<Longrightarrow> reaches c (gs @ hs) c''"
  by (auto simp: reaches_def intro: shrunk_trans)

lemma notify_trace:
  "\<exists>gs. reaches c gs (world (notify beh k c)) \<and> subseq gs (registered c k)"
proof (cases "getProp (subs c) k")
  case (Own cbs)
  with notifyFrom_trace [of beh k 0 c] show ?thesis
    by (auto simp: notify_def reaches_def)
next
  case Undefined
  then show ?thesis
    using reaches_refl [of c] by (auto simp: notify_def)
next
  case Inherited
  then show ?thesis
    using reaches_refl [of c] by (auto simp: notify_def)
qed

lemma notifyAll_trace:
  "\<exists>gs. reaches c gs (world (notifyAll beh ks c)) \<and> set gs \<subseteq> (\<Union>k\<in>set ks. set (registered c k))"
proof (induction ks arbitrary: c)
  case Nil
  show ?case using reaches_refl [of c] by (auto simp: notifyAll_def)
next
  case (Cons k ks)
  obtain gs where gs: "reaches c gs (world (notify beh k c))" "subseq gs (registered c k)"
    using notify_trace by blast
  have gset: "set gs \<subseteq> (\<Union>k\<in>set (k # ks). set (registered c k))"
    using gs(2) by (auto dest: list_emb_set)
  show ?case
  proof (cases "notify beh k c")
    case (Threw e c')
    then have "world (notifyAll beh (k # ks) c) = world (notify beh k c)"
      by (simp add: notifyAll_def)
    with gs(1) gset show ?thesis by auto
  next
    case (Done c')
    then have eq: "notifyAll beh (k # ks) c = notifyAll beh ks c'"
      by (simp add: notifyAll_def)
    from gs(1) Done have r: "reaches c gs c'" by simp
    obtain hs where hs: "reaches c' hs (world (notifyAll beh ks c'))"
      "set hs \<subseteq> (\<Union>k\<in>set ks. set (registered c' k))"
      using Cons.IH by blast
    from r have "shrunk (subs c') (subs c)" by (simp add: reaches_def)
    then have "\<And>j. set (registered c' j) \<subseteq> set (registered c j)"
      by (rule shrunk_registered_set)
    then have "(\<Union>k\<in>set ks. set (registered c' k)) \<subseteq> (\<Union>k\<in>set (k # ks). set (registered c k))"
      by auto
    with hs(2) have "set hs \<subseteq> (\<Union>k\<in>set (k # ks). set (registered c k))"
      by (rule subset_trans)
    with gset have "set (gs @ hs) \<subseteq> (\<Union>k\<in>set (k # ks). set (registered c k))"
      by simp
    moreover from r hs(1) have "reaches c (gs @ hs) (world (notifyAll beh (k # ks) c))"
      unfolding eq by (rule reaches_trans)
    ultimately show ?thesis by blast
  qed
qed

lemma invocations_append: "invocations f (xs @ ys) = invocations f xs + invocations f ys"
  by (simp add: invocations_def)

lemma invocations_map:
  "invocations f (map (\<lambda>g. (g, s)) gs) = count_list gs f"
  by (induction gs) (auto simp: invocations_def)

lemma invocations_absent: "f \<notin> set gs \<Longrightarrow> invocations f (map (\<lambda>g. (g, s)) gs) = 0"
  by (simp add: invocations_map)

lemma concat_replicate_invocations:
  "invocations f (concat (replicate n (map (\<lambda>g. (g, s)) cbs))) = n * count_list cbs f"
  by (induction n) (simp_all add: invocations_append invocations_map, simp add: invocations_def)

subsection \<open>Passes over callbacks that do not unsubscribe\<close>

lemma notifyFrom_quiet:
  assumes "\<forall>f\<in>set (registered c k). beh f (ref c) = []"
  shows "notifyFrom beh k i c =
           Done (c\<lparr>calls := calls c @ map (\<lambda>g. (g, ref c)) (drop i (registered c k))\<rparr>)"
  using assms
proof (induction beh k i c rule: notifyFrom.induct)
  case (1 beh k i c)
  show ?case
  proof (cases "subs c k")
    case None
    then show ?thesis
      by (simp add: notifyFrom.simps [of beh k i c] registered_def)
  next
    case (Some cbs)
    show ?thesis
    proof (cases "i < length cbs")
      case False
      with Some show ?thesis
        by (simp add: notifyFrom.simps [of beh k i c] registered_def)
    next
      case True
      let ?f = "cbs ! i"
      let ?c' = "c\<lparr>calls := calls c @ [(?f, ref c)]\<rparr>"
      have "?f \<in> set (registered c k)"
        using Some True by (simp add: registered_def)
      with "1.prems" have q: "beh ?f (ref c) = []" by blast
      then have inv: "invoke beh ?f (ref c) c = Done ?c'" by (rule invoke_quiet)
      have reg: "registered ?c' k = registered c k" by (simp add: registered_def)
      have "\<forall>f\<in>set (registered ?c' k). beh f (ref ?c') = []"
        using "1.prems" by (simp add: registered_def)
      from "1.IH" [OF Some True inv this]
      have "notifyFrom beh k (Suc i) ?c' =
              Done (?c'\<lparr>calls := calls ?c' @ map (\<lambda>g. (g, ref ?c')) (drop (Suc i) (registered ?c' k))\<rparr>)" .
      moreover have "drop i cbs = ?f # drop (Suc i) cbs"
        using True by (simp add: Cons_nth_drop_Suc)
      ultimately show ?thesis
        using Some True inv by (simp add: notifyFrom.simps [of beh k i c] registered_def)
    qed
  qed
qed

lemma notify_quiet:
  assumes "getProp (subs c) k \<noteq> Inherited"
    and "\<forall>f\<in>set (registered c k). beh f (ref c) = []"
  shows "notify beh k c = Done (c\<lparr>calls := calls c @ map (\<lambda>g. (g, ref c)) (registered c k)\<rparr>)"
proof (cases "getProp (subs c) k")
  case Undefined
  then have "subs c k = None" by (auto simp: getProp_def split: option.splits if_splits)
  with Undefined show ?thesis by (simp add: notify_def registered_def)
next
  case (Own cbs)
  with notifyFrom_quiet [of c k beh 0] assms(2) show ?thesis by (simp add: notify_def)
next
  case Inherited
  with assms(1) show ?thesis by simp
qed

lemma notifyAll_quiet:
  assumes "\<forall>k\<in>set ks. getProp (subs c) k \<noteq> Inherited"
    and "\<forall>k\<in>set ks. \<forall>f\<in>set (registered c k). beh f (ref c) = []"
  shows "notifyAll beh ks c =
           Done (c\<lparr>calls := calls c @ concat (map (\<lambda>k. map (\<lambda>g. (g, ref c)) (registered c k)) ks)\<rparr>)"
  using assms
proof (induction ks arbitrary: c)
  case Nil
  then show ?case by (simp add: notifyAll_def)
next
  case (Cons k ks)
  let ?c' = "c\<lparr>calls := calls c @ map (\<lambda>g. (g, ref c)) (registered c k)\<rparr>"
  have n: "notify beh k c = Done ?c'"
    using Cons.prems by (intro notify_quiet) simp_all
  have "notifyAll beh ks ?c' =
          Done (?c'\<lparr>calls := calls ?c' @ concat (map (\<lambda>k. map (\<lambda>g. (g, ref ?c')) (registered ?c' k)) ks)\<rparr>)"
    using Cons.prems by (intro Cons.IH) (simp_all add: registered_def)
  with n show ?case by (simp add: notifyAll_def registered_def)
qed

lemma notifyAll_replicate:
  assumes "subs c k = Some cbs" and "\<forall>g\<in>set cbs. beh g (ref c) = []"
  shows "notifyAll beh (replicate n k) c =
           Done (c\<lparr>calls := calls c @ concat (replicate n (map (\<lambda>g. (g, ref c)) cbs))\<rparr>)"
proof -
  have "\<forall>j\<in>set (replicate n k). getProp (subs c) j \<noteq> Inherited"
    using assms(1) by (simp add: getProp_def)
  moreover have "\<forall>j\<in>set (replicate n k). \<forall>g\<in>set (registered c j). beh g (ref c) = []"
    using assms by (simp add: registered_def)
  ultimately have "notifyAll beh (replicate n k) c =
      Done (c\<lparr>calls := calls c @
        concat (map (\<lambda>k. map (\<lambda>g. (g, ref c)) (registered c k)) (replicate n k))\<rparr>)"
    by (rule notifyAll_quiet)
  then show ?thesis using assms(1) by (simp add: registered_def map_replicate_const)
qed

subsection \<open>Fields that the registry operations leave alone\<close>

lemma more_unsubscribe_id: "core.more (world (unsubscribe_id f k c)) = core.more c"
  by (simp add: world_unsubscribe_id)

lemma more_unsubscribe: "core.more (world (unsubscribe is f c)) = core.more c"
  unfolding unsubscribe_def
  by (rule forEach_world_induct [where P = "\<lambda>c'. core.more c' = core.more c"])
     (simp_all add: more_unsubscribe_id)

lemma more_invoke: "core.more (world (invoke beh f s c)) = core.more c"
  unfolding invoke_def
  by (rule forEach_world_induct [where P = "\<lambda>c'. core.more c' = core.more c"])
     (simp_all add: more_unsubscribe)

lemma more_notifyFrom: "core.more (world (notifyFrom beh k i c)) = core.more c"
proof (induction beh k i c rule: notifyFrom.induct)
  case (1 beh k i c)
  show ?case
  proof (cases "subs c k")
    case None
    then show ?thesis by (simp add: notifyFrom.simps [of beh k i c])
  next
    case (Some cbs)
    show ?thesis
    proof (cases "i < length cbs")
      case False
      with Some show ?thesis by (simp add: notifyFrom.simps [of beh k i c])
    next
      case True
      show ?thesis
      proof (cases "invoke beh (cbs ! i) (ref c) c")
        case (Done c')
        with more_invoke [of beh "cbs ! i" "ref c" c] have "core.more c' = core.more c" by simp
        with "1.IH" [OF Some True Done] Some True Done show ?thesis
          by (simp add: notifyFrom.simps [of beh k i c])
      next
        case (Threw e c')
        with more_invoke [of beh "cbs ! i" "ref c" c] have "core.more c' = core.more c" by simp
        with Some True Threw show ?thesis
          by (simp add: notifyFrom.simps [of beh k i c])
      qed
    qed
  qed
qed

lemma more_notify: "core.more (world (notify beh k c)) = core.more c"
  by (cases "getProp (subs c) k") (simp_all add: notify_def more_notifyFrom)

lemma more_notifyAll: "core.more (world (notifyAll beh ks c)) = core.more c"
  unfolding notifyAll_def
  by (rule forEach_world_induct [where P = "\<lambda>c'. core.more c' = core.more c"])
     (simp_all add: more_notify)

lemma writer_more: "core.more c' = core.more c \<Longrightarrow> writer c' = writer c \<and> writerDeps c' = writerDeps c"
  by (cases c, cases c') simp

subsection \<open>The update collector of \<^verbatim>\<open>src/Broker.tsx\<close>\<close>

lemma fold_update_appends:
  "\<not> resetUpdates c \<Longrightarrow> fold update ks c = c\<lparr>updates := updates c @ ks\<rparr>"
  by (induction ks arbitrary: c) (simp_all add: update_def)

lemma fold_update_idle:
  assumes "resetUpdates c \<or> updates c = []" and "ks \<noteq> []"
  shows "fold update ks c = c\<lparr>resetUpdates := False, updates := ks\<rparr>"
proof (cases ks)
  case Nil
  with assms(2) show ?thesis by simp
next
  case (Cons k ks')
  show ?thesis
  proof (cases "resetUpdates c")
    case True
    then show ?thesis by (simp add: Cons update_def fold_update_appends)
  next
    case False
    with assms(1) have "updates c = []" by simp
    with False show ?thesis by (simp add: fold_update_appends)
  qed
qed

lemma fold_update_frame:
  "subs (fold update ks c) = subs c \<and> ref (fold update ks c) = ref c \<and>
   calls (fold update ks c) = calls c"
  by (induction ks arbitrary: c) (simp_all add: update_def)

lemma useCore1_idle_emit:
  assumes "resetUpdates c \<or> updates c = []" and "ks \<noteq> []"
  shows "useCore1 beh (Returns1 state ks) c =
           andThen (notifyAll beh ks (c\<lparr>resetUpdates := False, updates := ks, ref := state\<rparr>))
             (\<lambda>c2. Done (c2\<lparr>resetUpdates := True\<rparr>))"
proof -
  have "fold update ks c = c\<lparr>resetUpdates := False, updates := ks\<rparr>"
    using assms by (rule fold_update_idle)
  with assms(2) show ?thesis by (simp add: useCore1_def effect1_def Let_def)
qed

lemma idle_init1: "idle (init1 s)"
  by (simp add: idle_def init1_def)

lemma idle_useCore1:
  assumes "idle c" and "useCore1 beh (Returns1 state ks) c = Done c'"
  shows "idle c'"
proof -
  have pass: "idle d'" if "andThen (notifyAll beh us d) (\<lambda>c2. Done (c2\<lparr>resetUpdates := True\<rparr>)) = Done d'"
    for us and d d' :: "'a core1"
    using that by (cases "notifyAll beh us d") (auto simp: idle_def)
  show ?thesis
  proof (cases "ks = []")
    case False
    from useCore1_idle_emit [OF assms(1) [unfolded idle_def] False, of beh state] assms(2)
    show ?thesis by (auto intro: pass)
  next
    case True
    show ?thesis
    proof (cases "updates c = []")
      case True
      with \<open>ks = []\<close> assms(2) show ?thesis
        by (auto simp: useCore1_def effect1_def idle_def split: if_splits)
    next
      case False
      show ?thesis
      proof (cases "state \<noteq> ref c")
        case True
        with False \<open>ks = []\<close> assms(2)
        have "andThen (notifyAll beh (updates c) (c\<lparr>ref := state\<rparr>))
                (\<lambda>c2. Done (c2\<lparr>resetUpdates := True\<rparr>)) = Done c'"
          by (simp add: useCore1_def effect1_def)
        then show ?thesis by (rule pass)
      next
        case False
        with \<open>ks = []\<close> assms show ?thesis by (simp add: useCore1_def)
      qed
    qed
  qed
qed

subsection \<open>subscribe\<close>

lemma subscribe_loop:
  assumes "\<forall>k\<in>set ks. getProp (subs c) k \<noteq> Inherited"
  shows "forEach (subscribe_id f) ks c =
           Done (c\<lparr>subs := \<lambda>k. if k \<in> set ks
                               then Some (registered c k @ replicate (count_list ks k) f)
                               else subs c k\<rparr>)"
  using assms
proof (induction ks arbitrary: c)
  case Nil
  then show ?case by simp
next
  case (Cons k ks)
  let ?c' = "c\<lparr>subs := (subs c)(k \<mapsto> registered c k @ [f])\<rparr>"
  from Cons.prems have "getProp (subs c) k \<noteq> Inherited" by simp
  then have step: "subscribe_id f k c = Done ?c'"
    by (cases "getProp (subs c) k")
       (auto simp: subscribe_id_def registered_def getProp_def split: option.splits if_splits)
  have "\<forall>j\<in>set ks. getProp (subs ?c') j \<noteq> Inherited"
    using Cons.prems by (auto simp: getProp_def split: option.splits)
  from Cons.IH [OF this]
  have "forEach (subscribe_id f) ks ?c' =
          Done (?c'\<lparr>subs := \<lambda>j. if j \<in> set ks
                                 then Some (registered ?c' j @ replicate (count_list ks j) f)
                                 else subs ?c' j\<rparr>)" .
  moreover have "(\<lambda>j. if j \<in> set ks
                       then Some (registered ?c' j @ replicate (count_list ks j) f)
                       else subs ?c' j) =
                 (\<lambda>j. if j \<in> set (k # ks)
                       then Some (registered c j @ replicate (count_list (k # ks) j) f)
                       else subs c j)"
    by (rule ext) (auto simp: registered_def replicate_app_Cons_same)
  ultimately show ?case using step by simp
qed

lemma subscribe_loop_frame:
  "ref (world (forEach (subscribe_id f) ks c)) = ref c \<and>
   calls (world (forEach (subscribe_id f) ks c)) = calls c \<and>
   core.more (world (forEach (subscribe_id f) ks c)) = core.more c"
proof (rule forEach_world_induct
    [where P = "\<lambda>c'. ref c' = ref c \<and> calls c' = calls c \<and> core.more c' = core.more c"])
  show "ref c = ref c \<and> calls c = calls c \<and> core.more c = core.more c" by simp
next
  fix k c'
  assume "ref c' = ref c \<and> calls c' = calls c \<and> core.more c' = core.more c"
  then show "ref (world (subscribe_id f k c')) = ref c \<and>
             calls (world (subscribe_id f k c')) = calls c \<and>
             core.more (world (subscribe_id f k c')) = core.more c"
    by (cases "getProp (subs c') k") (simp_all add: subscribe_id_def)
qed

lemma subscribe_registers:
  assumes "\<forall>k\<in>set (unscalar is). getProp (subs c) k \<noteq> Inherited"
  shows "subscribe beh is f c =
           invoke beh f (ref c)
             (c\<lparr>subs := \<lambda>k. if k \<in> set (unscalar is)
                              then Some (registered c k @ replicate (count_list (unscalar is) k) f)
                              else subs c k\<rparr>)"
  using subscribe_loop [OF assms, of f] by (simp add: subscribe_def)

lemma subscribe_calls:
  assumes "\<forall>k\<in>set (unscalar is). getProp (subs c) k \<noteq> Inherited"
  shows "calls (world (subscribe beh is f c)) = calls c @ [(f, ref c)]"
proof -
  let ?c' = "c\<lparr>subs := \<lambda>k. if k \<in> set (unscalar is)
                              then Some (registered c k @ replicate (count_list (unscalar is) k) f)
                              else subs c k\<rparr>"
  have "subscribe beh is f c = invoke beh f (ref ?c') ?c'"
    using subscribe_loop [OF assms, of f] by (simp add: subscribe_def)
  with invoke_world [of beh f "ref ?c'" ?c'] show ?thesis by simp
qed

lemma subscribe_Done_calls:
  assumes "subscribe beh is f c = Done c''"
  shows "calls c'' = calls c @ [(f, ref c)] \<and> ref c'' = ref c"
proof (cases "forEach (subscribe_id f) (unscalar is) c")
  case (Threw e c')
  with assms show ?thesis by (simp add: subscribe_def)
next
  case (Done c')
  with subscribe_loop_frame [of f "unscalar is" c]
  have fr: "ref c' = ref c" "calls c' = calls c" by simp_all
  from Done assms have "invoke beh f (ref c') c' = Done c''" by (simp add: subscribe_def)
  with invoke_world [of beh f "ref c'" c'] fr show ?thesis by simp
qed

lemma subscribe_empty:
  "ref (world (subscribe beh (Many []) f c)) = ref c \<and>
   calls (world (subscribe beh (Many []) f c)) = calls c @ [(f, ref c)] \<and>
   shrunk (subs (world (subscribe beh (Many []) f c))) (subs c)"
  using invoke_world [of beh f "ref c" c] by (simp add: subscribe_def)

subsection \<open>Callbacks that are in no list\<close>

lemma reaches_unregistered:
  assumes "reaches c gs c'" and "unregistered f c"
  shows "unregistered f c'"
  using assms shrunk_registered_set [of c' c]
  by (auto simp: reaches_def unregistered_def)

lemma notifyAll_unregistered:
  assumes "unregistered f c"
  shows "invocations f (calls (world (notifyAll beh ks c))) = invocations f (calls c) \<and>
         unregistered f (world (notifyAll beh ks c))"
proof -
  obtain gs where gs: "reaches c gs (world (notifyAll beh ks c))"
    "set gs \<subseteq> (\<Union>k\<in>set ks. set (registered c k))"
    using notifyAll_trace by blast
  from gs(2) assms have "f \<notin> set gs" by (auto simp: unregistered_def)
  with gs(1) have "invocations f (calls (world (notifyAll beh ks c))) = invocations f (calls c)"
    by (simp add: reaches_def invocations_append invocations_absent)
  with reaches_unregistered [OF gs(1) assms] show ?thesis by simp
qed

lemma useCore1_unregistered:
  assumes "unregistered f c"
  shows "invocations f (calls (world (useCore1 beh run c))) = invocations f (calls c) \<and>
         unregistered f (world (useCore1 beh run c))"
proof (cases run)
  case (Throws1 e ks)
  with assms fold_update_frame [of ks c] show ?thesis
    by (simp add: useCore1_def unregistered_def registered_def)
next
  case (Returns1 state ks)
  let ?c1 = "fold update ks c"
  let ?d = "?c1\<lparr>ref := state\<rparr>"
  have u: "unregistered f ?d" and cl: "calls ?d = calls c"
    using assms fold_update_frame [of ks c] by (simp_all add: unregistered_def registered_def)
  have u1: "unregistered f ?c1"
    using assms fold_update_frame [of ks c] by (simp add: unregistered_def registered_def)
  note n = notifyAll_unregistered [OF u, of beh "updates ?c1"]
  have eff: "invocations f (calls (world (effect1 beh state ?c1))) = invocations f (calls c) \<and>
             unregistered f (world (effect1 beh state ?c1))"
  proof (cases "updates ?c1 = []")
    case True
    with u cl show ?thesis by (simp add: effect1_def)
  next
    case False
    show ?thesis
    proof (cases "notifyAll beh (updates ?c1) ?d")
      case (Done c2)
      with n cl False show ?thesis
        by (simp add: effect1_def unregistered_def registered_def)
    next
      case (Threw e c2)
      with n cl False show ?thesis
        by (simp add: effect1_def)
    qed
  qed
  show ?thesis
  proof (cases "state \<noteq> ref c \<or> ks \<noteq> []")
    case True
    with eff Returns1 show ?thesis by (simp add: useCore1_def Let_def)
  next
    case False
    with u1 fold_update_frame [of ks c] Returns1 show ?thesis by (simp add: useCore1_def)
  qed
qed

lemma useCore2_unregistered:
  assumes "unregistered f c"
  shows "invocations f (calls (world (useCore2 beh run c))) = invocations f (calls c) \<and>
         unregistered f (world (useCore2 beh run c))"
proof (cases run)
  case (Throws2 e ks)
  with assms show ?thesis by (simp add: useCore2_def)
next
  case (Returns2 state wr ks)
  let ?m = "useMemo wr (objectUnpack wr) (writer c, writerDeps c)"
  let ?d = "c\<lparr>writer := fst ?m, writerDeps := snd ?m, ref := state\<rparr>"
  have "unregistered f ?d" using assms by (simp add: unregistered_def registered_def)
  from notifyAll_unregistered [OF this, of beh ks] Returns2 show ?thesis
    by (simp add: useCore2_def Let_def)
qed

lemma renders1_unregistered:
  "unregistered f c \<Longrightarrow> invocations f (calls (renders1 beh runs c)) = invocations f (calls c)"
proof (induction runs arbitrary: c)
  case Nil
  then show ?case by (simp add: renders1_def)
next
  case (Cons run runs)
  from useCore1_unregistered [OF Cons.prems, of beh run] Cons.IH [of "world (useCore1 beh run c)"]
  show ?case by (simp add: renders1_def)
qed

lemma renders2_unregistered:
  "unregistered f c \<Longrightarrow> invocations f (calls (renders2 beh runs c)) = invocations f (calls c)"
proof (induction runs arbitrary: c)
  case Nil
  then show ?case by (simp add: renders2_def)
next
  case (Cons run runs)
  from useCore2_unregistered [OF Cons.prems, of beh run] Cons.IH [of "world (useCore2 beh run c)"]
  show ?case by (simp add: renders2_def)
qed

subsection \<open>The memoised writer\<close>

lemma areHookInputsEqual_refl: "areHookInputsEqual xs xs"
  by (induction xs) simp_all

lemma useCore2_writer:
  "writer (world (useCore2 beh (Returns2 state wr emitted) c)) =
     fst (useMemo wr (objectUnpack wr) (writer c, writerDeps c)) \<and>
   writerDeps (world (useCore2 beh (Returns2 state wr emitted) c)) =
     snd (useMemo wr (objectUnpack wr) (writer c, writerDeps c))"
proof -
  let ?m = "useMemo wr (objectUnpack wr) (writer c, writerDeps c)"
  let ?d = "c\<lparr>writer := fst ?m, writerDeps := snd ?m, ref := state\<rparr>"
  have "core.more (world (notifyAll beh emitted ?d)) = core.more ?d"
    by (rule more_notifyAll)
  then have "writer (world (notifyAll beh emitted ?d)) = writer ?d \<and>
             writerDeps (world (notifyAll beh emitted ?d)) = writerDeps ?d"
    by (rule writer_more)
  then show ?thesis by (simp add: useCore2_def Let_def)
qed

lemma objectUnpack_cong:
  assumes "map fst (props w2) = map fst (props w1)" and "map snd (props w2) = map snd (props w1)"
  shows "objectUnpack w2 = objectUnpack w1"
proof -
  have "map (\<lambda>kv. Str (fst kv)) (props w2) = map Str (map fst (props w2))"
    by (simp add: comp_def)
  also have "\<dots> = map Str (map fst (props w1))"
    by (simp only: assms(1))
  also have "\<dots> = map (\<lambda>kv. Str (fst kv)) (props w1)"
    by (simp add: comp_def)
  finally show ?thesis using assms(2) by (simp add: objectUnpack_def)
qed

subsection \<open>Transitions that emit nothing, and isolation\<close>

text \<open>
  In the second version the pending updates are local to one render: a render that emits
  nothing invokes nothing, and a callback that is in none of the lists of the emitted
  identifiers is not invoked. In \<^verbatim>\<open>src/Broker.tsx\<close> the same holds as long as nothing
  was ever emitted, respectively when something is emitted and the previous pass has
  completed.
\<close>

lemma useCore2_no_emission:
  "\<exists>c'. useCore2 beh (Returns2 state wr []) c = Done c' \<and> calls c' = calls c \<and>
        subs c' = subs c \<and> ref c' = state"
  by (simp add: useCore2_def notifyAll_def Let_def)

lemma useCore1_no_emission_fresh:
  "updates c = [] \<Longrightarrow>
   \<exists>c'. useCore1 beh (Returns1 state []) c = Done c' \<and> calls c' = calls c \<and>
        subs c' = subs c \<and> ref c' = state"
  by (simp add: useCore1_def effect1_def Let_def)

text \<open>
  In \<^verbatim>\<open>src/Broker.tsx\<close>, a render with a new state and no emission runs the pass
  over whatever the array \<^verbatim>\<open>updates\<close> holds, consumed or not.
\<close>

lemma useCore1_no_emission_stale:
  assumes "updates c \<noteq> []" and "state \<noteq> ref c"
  shows "useCore1 beh (Returns1 state []) c =
           andThen (notifyAll beh (updates c) (c\<lparr>ref := state\<rparr>))
             (\<lambda>c2. Done (c2\<lparr>resetUpdates := True\<rparr>))"
  using assms by (simp add: useCore1_def effect1_def)

lemma useCore2_isolation:
  assumes "\<forall>k\<in>set emitted. f \<notin> set (registered c k)"
  shows "invocations f (calls (world (useCore2 beh (Returns2 state wr emitted) c))) =
         invocations f (calls c)"
proof -
  let ?m = "useMemo wr (objectUnpack wr) (writer c, writerDeps c)"
  let ?c2 = "c\<lparr>writer := fst ?m, writerDeps := snd ?m, ref := state\<rparr>"
  have eq: "useCore2 beh (Returns2 state wr emitted) c = notifyAll beh emitted ?c2"
    by (simp add: useCore2_def Let_def)
  obtain gs where gs: "reaches ?c2 gs (world (notifyAll beh emitted ?c2))"
    "set gs \<subseteq> (\<Union>k\<in>set emitted. set (registered ?c2 k))"
    using notifyAll_trace by blast
  from gs(2) assms have "f \<notin> set gs" by (auto simp: registered_def)
  with gs(1) show ?thesis
    by (simp add: eq reaches_def invocations_append invocations_absent)
qed

lemma useCore1_isolation:
  assumes "\<forall>k\<in>set emitted. f \<notin> set (registered c k)"
    and "resetUpdates c \<or> updates c = []" and "emitted \<noteq> []"
  shows "invocations f (calls (world (useCore1 beh (Returns1 state emitted) c))) =
         invocations f (calls c)"
proof -
  let ?c1 = "c\<lparr>resetUpdates := False, updates := emitted, ref := state\<rparr>"
  have f: "fold update emitted c = c\<lparr>resetUpdates := False, updates := emitted\<rparr>"
    using assms(2,3) by (rule fold_update_idle)
  have eq: "useCore1 beh (Returns1 state emitted) c =
      andThen (notifyAll beh emitted ?c1) (\<lambda>c2. Done (c2\<lparr>resetUpdates := True\<rparr>))"
    using assms(3) by (simp add: useCore1_def effect1_def Let_def f)
  obtain gs where gs: "reaches ?c1 gs (world (notifyAll beh emitted ?c1))"
    "set gs \<subseteq> (\<Union>k\<in>set emitted. set (registered ?c1 k))"
    using notifyAll_trace by blast
  from gs(2) assms(1) have "f \<notin> set gs" by (auto simp: registered_def)
  with gs(1) have "invocations f (calls (world (notifyAll beh emitted ?c1))) = invocations f (calls c)"
    by (simp add: reaches_def invocations_append invocations_absent)
  then show ?thesis
    unfolding eq by (cases "notifyAll beh emitted ?c1") simp_all
qed

section \<open>The claims\<close>

text \<open>The definitions that evaluate the model on a concrete run.\<close>

lemmas run_defs =
  renders1_def renders2_def useCore1_def useCore2_def effect1_def update_def notifyAll_def
  notify_def notifyFrom.simps invoke_def inert_def subscribe_def subscribe_id_def
  unsubscribe_def unsubscribe_id_def getProp_def objectPrototypeKeys_def init1_def init2_def
  useMemo_def objectUnpack_def splice1_def invocations_def registered_def leavesWhenCalled_def

subsection \<open>C1: one notification per emission\<close>

text \<open>
  The loop \<^verbatim>\<open>for (const id of updates)\<close> walks the emitted identifiers as they were
  collected; nothing removes duplicates. Callback 0 is subscribed to \<open>a\<close> (and
  bootstrapped with state 0); a transition to state 1 that emits \<open>a\<close> twice invokes it
  twice, in both versions.
\<close>

theorem C1_counterexample:
  "calls (world (useCore1 inert (Returns1 1 [''a'', ''a''])
      (world (subscribe inert (One ''a'') 0 (init1 (0::nat)))))) = [(0, 0), (0, 1), (0, 1)] \<and>
   calls (world (useCore2 inert (Returns2 1 \<lparr>oid = 0, props = []\<rparr> [''a'', ''a''])
      (world (subscribe inert (One ''a'') 0
        (init2 (0::nat) \<lparr>oid = 0, props = ([] :: (string \<times> nat jsval) list)\<rparr>))))) =
     [(0, 0), (0, 1), (0, 1)]"
  by (simp add: run_defs)

text \<open>
  C1, as the code has it. When a transition emits the same identifier \<open>n \<ge> 1\<close> times
  and nothing else, and no callback registered under it unsubscribes during the pass,
  the pass completes and each callback is invoked \<open>n\<close> times for each of its entries
  in the list of that identifier: once per emission, not once per transition. In
  \<^verbatim>\<open>src/Broker.tsx\<close> this is the case when the previous pass has completed
  (\<open>idle\<close>).
\<close>

theorem C1_notified_once_per_emission:
  assumes "subs c1 k = Some cbs1" and "subs c2 k = Some cbs2"
    and "\<forall>g\<in>set cbs1. beh g state = []" and "\<forall>g\<in>set cbs2. beh g state = []"
    and "0 < n" and "resetUpdates c1 \<or> updates c1 = []"
  shows "(\<exists>c'. useCore1 beh (Returns1 state (replicate n k)) c1 = Done c' \<and>
            invocations f (calls c') = invocations f (calls c1) + n * count_list cbs1 f) \<and>
         (\<exists>c'. useCore2 beh (Returns2 state wr (replicate n k)) c2 = Done c' \<and>
            invocations f (calls c') = invocations f (calls c2) + n * count_list cbs2 f)"
proof
  let ?ks = "replicate n k"
  let ?d = "c1\<lparr>resetUpdates := False, updates := ?ks, ref := state\<rparr>"
  from assms(5) have ne: "?ks \<noteq> []" by simp
  have eq: "useCore1 beh (Returns1 state ?ks) c1 =
      andThen (notifyAll beh ?ks ?d) (\<lambda>c2. Done (c2\<lparr>resetUpdates := True\<rparr>))"
    using assms(6) ne by (rule useCore1_idle_emit)
  have "notifyAll beh ?ks ?d =
      Done (?d\<lparr>calls := calls ?d @ concat (replicate n (map (\<lambda>g. (g, ref ?d)) cbs1))\<rparr>)"
    using assms(1,3) by (intro notifyAll_replicate) simp_all
  then show "\<exists>c'. useCore1 beh (Returns1 state ?ks) c1 = Done c' \<and>
            invocations f (calls c') = invocations f (calls c1) + n * count_list cbs1 f"
    by (simp add: eq invocations_append concat_replicate_invocations)
next
  let ?ks = "replicate n k"
  let ?m = "useMemo wr (objectUnpack wr) (writer c2, writerDeps c2)"
  let ?d = "c2\<lparr>writer := fst ?m, writerDeps := snd ?m, ref := state\<rparr>"
  have eq: "useCore2 beh (Returns2 state wr ?ks) c2 = notifyAll beh ?ks ?d"
    by (simp add: useCore2_def Let_def)
  have "notifyAll beh ?ks ?d =
      Done (?d\<lparr>calls := calls ?d @ concat (replicate n (map (\<lambda>g. (g, ref ?d)) cbs2))\<rparr>)"
    using assms(2,4) by (intro notifyAll_replicate) simp_all
  then show "\<exists>c'. useCore2 beh (Returns2 state wr ?ks) c2 = Done c' \<and>
            invocations f (calls c') = invocations f (calls c2) + n * count_list cbs2 f"
    by (simp add: eq invocations_append concat_replicate_invocations)
qed

theorem C1_notified_once_per_emission_witness:
  "subs (world (subscribe inert (One ''a'') 0 (init1 (0::nat)))) ''a'' = Some [0] \<and>
   subs (world (subscribe inert (One ''a'') 0
      (init2 (0::nat) \<lparr>oid = 0, props = [(''d'', Val (0::nat))]\<rparr>))) ''a'' = Some [0] \<and>
   leavesWhenCalled ''b'' 9 0 (1::nat) = [] \<and>
   (0::nat) < 3 \<and>
   updates (world (subscribe inert (One ''a'') 0 (init1 (0::nat)))) = [] \<and>
   invocations 0 (calls (world (useCore1 (leavesWhenCalled ''b'' 9) (Returns1 1 (replicate 3 ''a''))
      (world (subscribe inert (One ''a'') 0 (init1 (0::nat))))))) = 4 \<and>
   invocations 0 (calls (world (useCore2 (leavesWhenCalled ''b'' 9)
      (Returns2 1 \<lparr>oid = 1, props = [(''d'', Val (0::nat))]\<rparr> (replicate 3 ''a''))
      (world (subscribe inert (One ''a'') 0
        (init2 (0::nat) \<lparr>oid = 0, props = [(''d'', Val (0::nat))]\<rparr>)))))) = 4"
proof -
  let ?c1 = "world (subscribe inert (One ''a'') 0 (init1 (0::nat)))"
  let ?c2 = "world (subscribe inert (One ''a'') 0
               (init2 (0::nat) \<lparr>oid = 0, props = [(''d'', Val (0::nat))]\<rparr>))"
  let ?beh = "leavesWhenCalled ''b'' 9 :: nat behaviour"
  have h1: "subs ?c1 ''a'' = Some [0]" and h2: "subs ?c2 ''a'' = Some [0]"
    and q: "\<forall>g\<in>set [0]. ?beh g 1 = []" and q0: "?beh 0 1 = []"
    and h3: "(0::nat) < 3" and h4: "resetUpdates ?c1 \<or> updates ?c1 = []"
    and u: "updates ?c1 = []"
    and b1: "invocations 0 (calls ?c1) = 1" and b2: "invocations 0 (calls ?c2) = 1"
    by (simp_all add: run_defs)
  from C1_notified_once_per_emission [where beh = ?beh and state = 1 and f = 0
      and wr = "\<lparr>oid = 1, props = [(''d'', Val (0::nat))]\<rparr>", OF h1 h2 q q h3 h4]
    h1 h2 q0 u b1 b2
  show ?thesis by auto
qed

subsection \<open>C2: unsubscribing during a pass\<close>

text \<open>
  The pass reads the live array by position, and \<^verbatim>\<open>splice\<close> moves the later entries
  one position down. Callbacks 0 and 1 are subscribed to \<open>a\<close>, in this order, and
  callback 0 unsubscribes itself from \<open>a\<close> whenever it is invoked. A transition to state
  5 that emits \<open>a\<close> invokes callback 0 only: callback 1, registered at the start of the
  pass and not yet invoked, is skipped.
\<close>

theorem C2_counterexample:
  "registered (world (subscribe (leavesWhenCalled ''a'' 0) (One ''a'') 1
      (world (subscribe inert (One ''a'') 0 (init1 (0::nat)))))) ''a'' = [0, 1] \<and>
   calls (world (subscribe (leavesWhenCalled ''a'' 0) (One ''a'') 1
      (world (subscribe inert (One ''a'') 0 (init1 (0::nat)))))) = [(0, 0), (1, 0)] \<and>
   calls (world (useCore1 (leavesWhenCalled ''a'' 0) (Returns1 5 [''a''])
      (world (subscribe (leavesWhenCalled ''a'' 0) (One ''a'') 1
        (world (subscribe inert (One ''a'') 0 (init1 (0::nat)))))))) = [(0, 0), (1, 0), (0, 5)]"
  by (simp add: run_defs)

text \<open>
  C2, as the code has it. During a notification pass for an identifier, whatever the
  invoked callbacks unsubscribe, the callbacks invoked are a subsequence of the list at
  the start of the pass: none is invoked out of order or more often than it is
  registered, but callbacks not yet invoked may be skipped. When no callback of the
  list unsubscribes anything, the pass completes and invokes every callback of the list
  exactly once per entry, in registration order.
\<close>

theorem C2_live_iteration:
  assumes "subs c k = Some cbs"
  shows "(\<exists>gs. calls (world (notify beh k c)) = calls c @ map (\<lambda>g. (g, ref c)) gs \<and> subseq gs cbs) \<and>
         ((\<forall>g\<in>set cbs. beh g (ref c) = []) \<longrightarrow>
            notify beh k c = Done (c\<lparr>calls := calls c @ map (\<lambda>g. (g, ref c)) cbs\<rparr>))"
proof
  from notify_trace [of c beh k] assms
  show "\<exists>gs. calls (world (notify beh k c)) = calls c @ map (\<lambda>g. (g, ref c)) gs \<and> subseq gs cbs"
    by (auto simp: reaches_def registered_def)
next
  show "(\<forall>g\<in>set cbs. beh g (ref c) = []) \<longrightarrow>
            notify beh k c = Done (c\<lparr>calls := calls c @ map (\<lambda>g. (g, ref c)) cbs\<rparr>)"
  proof
    assume q: "\<forall>g\<in>set cbs. beh g (ref c) = []"
    have "getProp (subs c) k \<noteq> Inherited" using assms by (simp add: getProp_def)
    moreover have "\<forall>g\<in>set (registered c k). beh g (ref c) = []"
      using q assms by (simp add: registered_def)
    ultimately have "notify beh k c =
        Done (c\<lparr>calls := calls c @ map (\<lambda>g. (g, ref c)) (registered c k)\<rparr>)"
      by (rule notify_quiet)
    with assms show "notify beh k c = Done (c\<lparr>calls := calls c @ map (\<lambda>g. (g, ref c)) cbs\<rparr>)"
      by (simp add: registered_def)
  qed
qed

theorem C2_live_iteration_witness:
  "subs (world (subscribe inert (One ''a'') 1
      (world (subscribe inert (One ''a'') 0 (init1 (0::nat)))))) ''a'' = Some [0, 1] \<and>
   (\<exists>gs. calls (world (notify (leavesWhenCalled ''a'' 0) ''a''
        (world (subscribe inert (One ''a'') 1
          (world (subscribe inert (One ''a'') 0 (init1 (0::nat)))))))) =
      [(0, 0), (1, 0)] @ map (\<lambda>g. (g, 0)) gs \<and> subseq gs [0, 1]) \<and>
   calls (world (notify inert ''a''
        (world (subscribe inert (One ''a'') 1
          (world (subscribe inert (One ''a'') 0 (init1 (0::nat)))))))) =
      [(0, 0), (1, 0), (0, 0), (1, 0)]"
proof -
  let ?c = "world (subscribe inert (One ''a'') 1
              (world (subscribe inert (One ''a'') 0 (init1 (0::nat)))))"
  have h: "subs ?c ''a'' = Some [0, 1]" and r: "ref ?c = 0" and l: "calls ?c = [(0, 0), (1, 0)]"
    by (simp_all add: run_defs)
  have q: "\<forall>g\<in>set [0, 1]. inert g (ref ?c) = []" by (simp add: inert_def)
  from C2_live_iteration [OF h, of "leavesWhenCalled ''a'' 0"]
    C2_live_iteration [OF h, of inert] q h
  show ?thesis unfolding r l by auto
qed

subsection \<open>C3: pending updates after a pass\<close>

text \<open>
  C3. The claim: the pending updates are emptied after each notification pass, so a
  later transition that emits no identifier notifies nobody for the identifiers emitted
  before. The second version does so (\<open>useCore2_no_emission\<close>). In
  \<^verbatim>\<open>src/Broker.tsx\<close> the pass only sets the flag \<^verbatim>\<open>resetUpdates\<close>; the array
  \<^verbatim>\<open>updates\<close> keeps its identifiers, and the effect, which does not read the flag,
  walks them again when the next state arrives without an emission. Callback 0 is
  subscribed to \<open>a\<close> (bootstrapped with state 0), the first transition emits \<open>a\<close> with
  state 1, the second emits nothing with state 2: the array still holds \<open>a\<close> after the
  first pass, and callback 0 is invoked again with state 2.
\<close>

theorem C3_stale_updates_notified_again:
  "updates (renders1 inert [Returns1 1 [''a'']]
      (world (subscribe inert (One ''a'') 0 (init1 (0::nat))))) = [''a''] \<and>
   calls (renders1 inert [Returns1 1 [''a''], Returns1 2 []]
      (world (subscribe inert (One ''a'') 0 (init1 (0::nat))))) = [(0, 0), (0, 1), (0, 2)]"
  by (simp add: run_defs)

subsection \<open>C4: subscribe registers and bootstraps\<close>

text \<open>
  For identifiers that are not property names of \<^verbatim>\<open>Object.prototype\<close>,
  \<^verbatim>\<open>subscribe\<close> appends the callback to the list of each identifier, once per
  occurrence of the identifier, creating the list if absent, and then invokes the
  callback once with the snapshot (\<open>subscribe_registers\<close>, \<open>subscribe_calls\<close>).
\<close>

text \<open>
  C4. The claim: for every non-empty list of identifiers \<^verbatim>\<open>subscribe\<close> appends the
  callback to each identifier's list, creating it if absent, and then invokes it once
  with the snapshot. For an identifier that is a property name of
  \<^verbatim>\<open>Object.prototype\<close>, such as \<open>constructor\<close> or \<open>toString\<close>, the lookup
  \<^verbatim>\<open>subs.current[id]\<close> does not give \<^verbatim>\<open>undefined\<close>, no list is created, and
  \<^verbatim>\<open>s.push\<close> throws a TypeError: the callback is neither registered nor invoked.
\<close>

theorem C4_inherited_name_throws:
  "subscribe beh (One ''constructor'') f (init1 s) = Threw TypeError (init1 s) \<and>
   calls (world (subscribe beh (One ''constructor'') f (init1 s))) = [] \<and>
   subscribe beh (One ''toString'') f (init2 s w) = Threw TypeError (init2 s w)"
  by (simp add: subscribe_def subscribe_id_def getProp_def objectPrototypeKeys_def init1_def init2_def)

subsection \<open>C5: isolation\<close>

text \<open>
  C5. The claim: a callback registered only under identifiers disjoint from the emitted
  set is not invoked during that transition's pass. The second version does so
  (\<open>useCore2_isolation\<close>). In \<^verbatim>\<open>src/Broker.tsx\<close> a transition that emits nothing
  walks the identifiers of the previous emission. Callback 0 is subscribed to
  \<open>count\<close> and callback 1 to \<open>other\<close>; the first transition emits \<open>other\<close>, the
  second emits nothing. Callback 1 has been invoked twice after the first transition
  (bootstrap and pass) and three times after the second, whose emitted set is empty.
\<close>

theorem C5_unrelated_subscriber_notified:
  "invocations 1 (calls (renders1 inert [Returns1 1 [''other'']]
      (world (subscribe inert (One ''other'') 1
        (world (subscribe inert (One ''count'') 0 (init1 (0::nat)))))))) = 2 \<and>
   invocations 1 (calls (renders1 inert [Returns1 1 [''other''], Returns1 2 []]
      (world (subscribe inert (One ''other'') 1
        (world (subscribe inert (One ''count'') 0 (init1 (0::nat)))))))) = 3"
  by (simp add: run_defs)

subsection \<open>C6: transitions that emit nothing\<close>

text \<open>
  C6. The claim: a transition that emits no identifier invokes no callback and still
  updates the snapshot. The second version does so (\<open>useCore2_no_emission\<close>). In
  \<^verbatim>\<open>src/Broker.tsx\<close> the snapshot is updated, and the guard
  \<^verbatim>\<open>updates.length > 0\<close> reads the identifiers left from the previous emission:
  callback 7, subscribed to \<open>count\<close>, is invoked with state 12 by a transition that
  emitted nothing.
\<close>

theorem C6_no_emission_still_notifies:
  "calls (world (subscribe inert (One ''count'') 7 (init1 (10::nat)))) = [(7, 10)] \<and>
   calls (renders1 inert [Returns1 11 [''count'']]
      (world (subscribe inert (One ''count'') 7 (init1 (10::nat))))) = [(7, 10), (7, 11)] \<and>
   renders1 inert [Returns1 11 [''count''], Returns1 12 []]
      (world (subscribe inert (One ''count'') 7 (init1 (10::nat)))) =
   \<lparr>subs = [''count'' \<mapsto> [7]], ref = 12, calls = [(7, 10), (7, 11), (7, 12)],
     resetUpdates = True, updates = [''count'']\<rparr>"
  by (simp add: run_defs)

subsection \<open>C7: stability of the writer\<close>

text \<open>
  The dependency array of the memo lists the property names and then the values, in
  the order of enumeration, and is compared position by position. Two writers with the
  same properties and the same value for each, enumerated in a different order, are
  different to the memo: after a render with \<open>{a: 1, b: 2}\<close> (object 1) a render with
  \<open>{b: 2, a: 1}\<close> (object 2) exposes object 2.
\<close>

theorem C7_counterexample:
  "map_of (props \<lparr>oid = 1, props = [(''a'', Val (1::nat)), (''b'', Val 2)]\<rparr>) =
   map_of (props \<lparr>oid = 2, props = [(''b'', Val (2::nat)), (''a'', Val 1)]\<rparr>) \<and>
   oid (writer (world (useCore2 inert
       (Returns2 1 \<lparr>oid = 1, props = [(''a'', Val (1::nat)), (''b'', Val 2)]\<rparr> [])
       (init2 (0::nat) \<lparr>oid = 0, props = [(''a'', Val (0::nat)), (''b'', Val 0)]\<rparr>)))) = 1 \<and>
   oid (writer (world (useCore2 inert
       (Returns2 2 \<lparr>oid = 2, props = [(''b'', Val (2::nat)), (''a'', Val 1)]\<rparr> [])
       (world (useCore2 inert
         (Returns2 1 \<lparr>oid = 1, props = [(''a'', Val (1::nat)), (''b'', Val 2)]\<rparr> [])
         (init2 (0::nat) \<lparr>oid = 0, props = [(''a'', Val (0::nat)), (''b'', Val 0)]\<rparr>)))))) = 2"
  by (auto simp: run_defs fun_eq_iff)

text \<open>
  C7, as the code has it. If the property names of the writer and its property values,
  each in the order of enumeration, are the same in two consecutive transitions, the
  writer exposed after the second is the object exposed after the first, whatever the
  states and the emitted identifiers; the exposed writer changes only when the
  sequence of names or the sequence of values differs.
\<close>

theorem C7_writer_stable:
  "(map fst (props w2) = map fst (props w1) \<and> map snd (props w2) = map snd (props w1) \<longrightarrow>
      writer (world (useCore2 beh2 (Returns2 s2 w2 e2) (world (useCore2 beh1 (Returns2 s1 w1 e1) c)))) =
      writer (world (useCore2 beh1 (Returns2 s1 w1 e1) c))) \<and>
   (writer (world (useCore2 beh2 (Returns2 s2 w2 e2) (world (useCore2 beh1 (Returns2 s1 w1 e1) c)))) \<noteq>
      writer (world (useCore2 beh1 (Returns2 s1 w1 e1) c)) \<longrightarrow>
      map fst (props w2) \<noteq> map fst (props w1) \<or> map snd (props w2) \<noteq> map snd (props w1))"
proof -
  let ?c1 = "world (useCore2 beh1 (Returns2 s1 w1 e1) c)"
  let ?c2 = "world (useCore2 beh2 (Returns2 s2 w2 e2) ?c1)"
  have stable: "writer ?c2 = writer ?c1"
    if "map fst (props w2) = map fst (props w1)" "map snd (props w2) = map snd (props w1)"
  proof -
    from that have u: "objectUnpack w2 = objectUnpack w1" by (rule objectUnpack_cong)
    note r1 = useCore2_writer [of beh1 s1 w1 e1 c]
    note r2 = useCore2_writer [of beh2 s2 w2 e2 ?c1]
    show ?thesis
    proof (cases "areHookInputsEqual (objectUnpack w1) (writerDeps c)")
      case True
      with r1 have "writerDeps ?c1 = writerDeps c" by (simp add: useMemo_def)
      with True u r2 show ?thesis by (simp add: useMemo_def)
    next
      case False
      with r1 have "writerDeps ?c1 = objectUnpack w1" by (simp add: useMemo_def)
      with u r2 show ?thesis by (simp add: useMemo_def areHookInputsEqual_refl)
    qed
  qed
  then show ?thesis by blast
qed

theorem C7_writer_stable_witness:
  "writer (world (useCore2 inert
       (Returns2 2 \<lparr>oid = 2, props = [(''dispatch'', Val (5::nat))]\<rparr> [''a''])
       (world (useCore2 inert (Returns2 1 \<lparr>oid = 1, props = [(''dispatch'', Val 5)]\<rparr> [])
         (init2 (0::nat) \<lparr>oid = 0, props = [(''dispatch'', Val 4)]\<rparr>))))) =
   \<lparr>oid = 1, props = [(''dispatch'', Val 5)]\<rparr>"
proof -
  let ?w1 = "\<lparr>oid = 1, props = [(''dispatch'', Val (5::nat))]\<rparr>"
  let ?w2 = "\<lparr>oid = 2, props = [(''dispatch'', Val (5::nat))]\<rparr>"
  let ?c = "init2 (0::nat) \<lparr>oid = 0, props = [(''dispatch'', Val (4::nat))]\<rparr>"
  have h: "map fst (props ?w2) = map fst (props ?w1) \<and> map snd (props ?w2) = map snd (props ?w1)"
    by simp
  have first: "writer (world (useCore2 inert (Returns2 1 ?w1 []) ?c)) = ?w1"
    by (simp add: run_defs)
  from C7_writer_stable [of ?w2 ?w1 inert 2 "[''a'']" inert 1 "[]" ?c] h first
  show ?thesis by simp
qed

subsection \<open>C8: the hook throws\<close>

text \<open>
  C8. If the state-producing hook throws during a transition, \<^verbatim>\<open>useCore\<close> throws the
  same value and no effect runs: the snapshot, the registry and the log of invocations
  are as before, so no callback is notified, and a \<^verbatim>\<open>subscribe\<close> that returns
  afterwards has bootstrapped its callback with the state committed before. This holds
  in both versions.
\<close>

theorem C8_hook_throws:
  "(\<exists>c'. useCore1 beh (Throws1 e emitted) c1 = Threw (HookThrew e) c' \<and>
       ref c' = ref c1 \<and> calls c' = calls c1 \<and> subs c' = subs c1 \<and>
       (\<forall>c''. subscribe beh is f c' = Done c'' \<longrightarrow> calls c'' = calls c1 @ [(f, ref c1)])) \<and>
   (\<exists>c'. useCore2 beh (Throws2 e emitted) c2 = Threw (HookThrew e) c' \<and>
       ref c' = ref c2 \<and> calls c' = calls c2 \<and> subs c' = subs c2 \<and>
       (\<forall>c''. subscribe beh is f c' = Done c'' \<longrightarrow> calls c'' = calls c2 @ [(f, ref c2)]))"
proof
  let ?c' = "fold update emitted c1"
  note fr = fold_update_frame [of emitted c1]
  have "\<forall>c''. subscribe beh is f ?c' = Done c'' \<longrightarrow> calls c'' = calls c1 @ [(f, ref c1)]"
    using subscribe_Done_calls [of beh "is" f ?c'] fr by auto
  with fr show "\<exists>c'. useCore1 beh (Throws1 e emitted) c1 = Threw (HookThrew e) c' \<and>
       ref c' = ref c1 \<and> calls c' = calls c1 \<and> subs c' = subs c1 \<and>
       (\<forall>c''. subscribe beh is f c' = Done c'' \<longrightarrow> calls c'' = calls c1 @ [(f, ref c1)])"
    by (simp add: useCore1_def)
next
  have "\<forall>c''. subscribe beh is f c2 = Done c'' \<longrightarrow> calls c'' = calls c2 @ [(f, ref c2)]"
    using subscribe_Done_calls [of beh "is" f c2] by auto
  then show "\<exists>c'. useCore2 beh (Throws2 e emitted) c2 = Threw (HookThrew e) c' \<and>
       ref c' = ref c2 \<and> calls c' = calls c2 \<and> subs c' = subs c2 \<and>
       (\<forall>c''. subscribe beh is f c' = Done c'' \<longrightarrow> calls c'' = calls c2 @ [(f, ref c2)])"
    by (simp add: useCore2_def)
qed

theorem C8_hook_throws_witness:
  "ref (world (useCore1 inert (Throws1 ''boom'' [''a''])
      (renders1 inert [Returns1 1 [''a'']]
        (world (subscribe inert (One ''a'') 0 (init1 (0::nat))))))) = 1 \<and>
   calls (world (subscribe inert (One ''b'') 2
      (world (useCore1 inert (Throws1 ''boom'' [''a''])
        (renders1 inert [Returns1 1 [''a'']]
          (world (subscribe inert (One ''a'') 0 (init1 (0::nat))))))))) =
     [(0, 0), (0, 1), (2, 1)] \<and>
   calls (world (subscribe inert (One ''b'') 2
      (world (useCore2 inert (Throws2 ''boom'' [''a''])
        (init2 (0::nat) \<lparr>oid = 0, props = [(''d'', Val (0::nat))]\<rparr>))))) = [(2, 0)]"
proof -
  let ?c1 = "renders1 inert [Returns1 1 [''a'']]
               (world (subscribe inert (One ''a'') 0 (init1 (0::nat))))"
  let ?c2 = "init2 (0::nat) \<lparr>oid = 0, props = [(''d'', Val (0::nat))]\<rparr>"
  let ?t1 = "world (useCore1 inert (Throws1 ''boom'' [''a'']) ?c1)"
  let ?t2 = "world (useCore2 inert (Throws2 ''boom'' [''a'']) ?c2)"
  have d1: "\<exists>c''. subscribe inert (One ''b'') 2 ?t1 = Done c''"
    and d2: "\<exists>c''. subscribe inert (One ''b'') 2 ?t2 = Done c''"
    and r1: "ref ?c1 = 1" and l1: "calls ?c1 = [(0, 0), (0, 1)]"
    and r2: "ref ?c2 = 0" and l2: "calls ?c2 = []"
    by (simp_all add: run_defs)
  from C8_hook_throws [of inert "''boom''" "[''a'']" ?c1 "One ''b''" 2 ?c2] d1 d2
  show ?thesis unfolding r1 l1 r2 l2 by auto
qed

subsection \<open>C9: unsubscribing twice\<close>

text \<open>
  \<^verbatim>\<open>subscribe\<close> does not look for the callback before it appends, and
  \<^verbatim>\<open>unsubscribe\<close> removes the first occurrence only. After callback 0 has subscribed
  to \<open>a\<close> twice, one \<^verbatim>\<open>unsubscribe\<close> leaves it registered once and a second one
  removes it: two calls do not give the registry that one call gives.
\<close>

theorem C9_counterexample:
  "registered (world (unsubscribe (One ''a'') 0
      (world (subscribe inert (One ''a'') 0
        (world (subscribe inert (One ''a'') 0 (init1 (0::nat)))))))) ''a'' = [0] \<and>
   registered (world (andThen (unsubscribe (One ''a'') 0
      (world (subscribe inert (One ''a'') 0
        (world (subscribe inert (One ''a'') 0 (init1 (0::nat)))))))
      (unsubscribe (One ''a'') 0))) ''a'' = []"
  by (simp add: run_defs)

text \<open>
  C9, as the code has it. For an identifier whose lookup is a list or \<^verbatim>\<open>undefined\<close>:
  \<^verbatim>\<open>unsubscribe(id, cb)\<close> with \<open>cb\<close> not in the list of \<open>id\<close> returns normally and
  changes nothing; and when \<open>cb\<close> is in the list at most once, two calls in a row give
  the state that one call gives.
\<close>

theorem C9_unsubscribe_idempotent:
  assumes "getProp (subs c) k \<noteq> Inherited"
  shows "(f \<notin> set (registered c k) \<longrightarrow> unsubscribe (One k) f c = Done c) \<and>
         (count_list (registered c k) f \<le> 1 \<longrightarrow>
            andThen (unsubscribe (One k) f c) (unsubscribe (One k) f) = unsubscribe (One k) f c)"
proof (intro conjI impI)
  assume "f \<notin> set (registered c k)"
  then have "map_option (remove1 f) (subs c k) = subs c k"
    by (cases "subs c k") (simp_all add: registered_def remove1_idem)
  then show "unsubscribe (One k) f c = Done c"
    by (simp add: unsubscribe_One unsubscribe_id_Done [OF assms])
next
  assume once: "count_list (registered c k) f \<le> 1"
  let ?c' = "c\<lparr>subs := (subs c)(k := map_option (remove1 f) (subs c k))\<rparr>"
  have first: "unsubscribe (One k) f c = Done ?c'"
    by (simp add: unsubscribe_One unsubscribe_id_Done [OF assms])
  have ni: "getProp (subs ?c') k \<noteq> Inherited"
    using assms by (auto simp: getProp_def split: option.splits if_splits)
  have "map_option (remove1 f) (subs ?c' k) = subs ?c' k"
  proof (cases "subs c k")
    case None
    then show ?thesis by simp
  next
    case (Some xs)
    with once have "f \<notin> set (remove1 f xs)"
      by (simp add: registered_def remove1_once)
    with Some show ?thesis by (simp add: remove1_idem)
  qed
  then have "unsubscribe (One k) f ?c' = Done ?c'"
    by (simp add: unsubscribe_One unsubscribe_id_Done [OF ni])
  with first show "andThen (unsubscribe (One k) f c) (unsubscribe (One k) f) = unsubscribe (One k) f c"
    by simp
qed

theorem C9_unsubscribe_idempotent_witness:
  "getProp (subs (world (subscribe inert (One ''a'') 0 (init1 (0::nat))))) ''a'' \<noteq> Inherited \<and>
   1 \<notin> set (registered (world (subscribe inert (One ''a'') 0 (init1 (0::nat)))) ''a'') \<and>
   unsubscribe (One ''a'') 1 (world (subscribe inert (One ''a'') 0 (init1 (0::nat)))) =
     Done (world (subscribe inert (One ''a'') 0 (init1 (0::nat)))) \<and>
   count_list (registered (world (subscribe inert (One ''a'') 0 (init1 (0::nat)))) ''a'') 0 \<le> 1 \<and>
   andThen (unsubscribe (One ''a'') 0 (world (subscribe inert (One ''a'') 0 (init1 (0::nat)))))
     (unsubscribe (One ''a'') 0) =
   unsubscribe (One ''a'') 0 (world (subscribe inert (One ''a'') 0 (init1 (0::nat))))"
proof -
  let ?c = "world (subscribe inert (One ''a'') 0 (init1 (0::nat)))"
  have h: "getProp (subs ?c) ''a'' \<noteq> Inherited"
    by (simp add: run_defs)
  have a: "1 \<notin> set (registered ?c ''a'')" and b: "count_list (registered ?c ''a'') 0 \<le> 1"
    by (simp_all add: run_defs)
  from C9_unsubscribe_idempotent [OF h, of 1] C9_unsubscribe_idempotent [OF h, of 0] h a b
  show ?thesis by blast
qed

subsection \<open>C10: subscribing to no identifier\<close>

text \<open>
  C10. \<^verbatim>\<open>subscribe\<close> with an empty list of identifiers invokes the callback once with
  the snapshot; the call itself changes nothing else (first and second part, the
  second for a callback that does not unsubscribe anything in its bootstrap). A
  callback that is in no list before the call is in none after it, and no sequence of
  later transitions invokes it, in either version: the bootstrap stays its only
  invocation.
\<close>

theorem C10_empty_subscription:
  "calls (world (subscribe beh (Many []) f c)) = calls c @ [(f, ref c)] \<and>
   (beh f (ref c) = [] \<longrightarrow> subscribe beh (Many []) f c = Done (c\<lparr>calls := calls c @ [(f, ref c)]\<rparr>)) \<and>
   ((\<forall>k. f \<notin> set (registered c1 k)) \<longrightarrow>
      invocations f (calls (renders1 beh runs1 (world (subscribe beh (Many []) f c1)))) =
      invocations f (calls c1) + 1) \<and>
   ((\<forall>k. f \<notin> set (registered c2 k)) \<longrightarrow>
      invocations f (calls (renders2 beh runs2 (world (subscribe beh (Many []) f c2)))) =
      invocations f (calls c2) + 1)"
proof (intro conjI impI)
  show "calls (world (subscribe beh (Many []) f c)) = calls c @ [(f, ref c)]"
    using subscribe_empty [of beh f c] by simp
next
  assume "beh f (ref c) = []"
  then show "subscribe beh (Many []) f c = Done (c\<lparr>calls := calls c @ [(f, ref c)]\<rparr>)"
    by (simp add: subscribe_def invoke_quiet)
next
  assume a: "\<forall>k. f \<notin> set (registered c1 k)"
  let ?c' = "world (subscribe beh (Many []) f c1)"
  note s = subscribe_empty [of beh f c1]
  from s a shrunk_registered_set [of ?c' c1] have "unregistered f ?c'"
    by (auto simp: unregistered_def)
  from renders1_unregistered [OF this, of beh runs1] s
  show "invocations f (calls (renders1 beh runs1 ?c')) = invocations f (calls c1) + 1"
    by (simp add: invocations_append) (simp add: invocations_def)
next
  assume a: "\<forall>k. f \<notin> set (registered c2 k)"
  let ?c' = "world (subscribe beh (Many []) f c2)"
  note s = subscribe_empty [of beh f c2]
  from s a shrunk_registered_set [of ?c' c2] have "unregistered f ?c'"
    by (auto simp: unregistered_def)
  from renders2_unregistered [OF this, of beh runs2] s
  show "invocations f (calls (renders2 beh runs2 ?c')) = invocations f (calls c2) + 1"
    by (simp add: invocations_append) (simp add: invocations_def)
qed

theorem C10_empty_subscription_witness:
  "calls (world (subscribe inert (Many []) 3
      (world (subscribe inert (One ''a'') 0 (init1 (0::nat)))))) = [(0, 0), (3, 0)] \<and>
   subscribe inert (Many []) 3 (world (subscribe inert (One ''a'') 0 (init1 (0::nat)))) =
     Done \<lparr>subs = [''a'' \<mapsto> [0]], ref = 0, calls = [(0, 0), (3, 0)],
           resetUpdates = False, updates = []\<rparr> \<and>
   invocations 3 (calls (renders1 inert [Returns1 1 [''a''], Returns1 2 []]
      (world (subscribe inert (Many []) 3
        (world (subscribe inert (One ''a'') 0 (init1 (0::nat)))))))) = 1 \<and>
   invocations 3 (calls (renders2 inert [Returns2 1 \<lparr>oid = 0, props = []\<rparr> [''a'']]
      (world (subscribe inert (Many []) 3
        (world (subscribe inert (One ''a'') 0
          (init2 (0::nat) \<lparr>oid = 0, props = ([] :: (string \<times> nat jsval) list)\<rparr>))))))) = 1"
proof -
  let ?c1 = "world (subscribe inert (One ''a'') 0 (init1 (0::nat)))"
  let ?c2 = "world (subscribe inert (One ''a'') 0
               (init2 (0::nat) \<lparr>oid = 0, props = ([] :: (string \<times> nat jsval) list)\<rparr>))"
  let ?r1 = "[Returns1 1 [''a''], Returns1 2 []] :: nat hookRun1 list"
  let ?r2 = "[Returns2 1 \<lparr>oid = 0, props = []\<rparr> [''a'']] :: (nat, nat) hookRun2 list"
  note t = C10_empty_subscription [of inert 3 ?c1 ?c1 ?r1 ?c2 ?r2]
  have q: "inert 3 (ref ?c1) = []" by (simp add: inert_def)
  have u1: "\<forall>k. 3 \<notin> set (registered ?c1 k)" and u2: "\<forall>k. 3 \<notin> set (registered ?c2 k)"
    by (simp_all add: run_defs)
  have i1: "invocations 3 (calls ?c1) + 1 = 1" and i2: "invocations 3 (calls ?c2) + 1 = 1"
    and l: "calls ?c1 @ [(3, ref ?c1)] = [(0, 0), (3, 0)]"
    and d: "?c1\<lparr>calls := calls ?c1 @ [(3, ref ?c1)]\<rparr> =
            \<lparr>subs = [''a'' \<mapsto> [0]], ref = 0, calls = [(0, 0), (3, 0)],
             resetUpdates = False, updates = []\<rparr>"
    by (simp_all add: run_defs)
  from t have "calls (world (subscribe inert (Many []) 3 ?c1)) = calls ?c1 @ [(3, ref ?c1)]"
    by (rule conjunct1)
  then have A: "calls (world (subscribe inert (Many []) 3 ?c1)) = [(0, 0), (3, 0)]"
    by (simp only: l)
  from t q have "subscribe inert (Many []) 3 ?c1 = Done (?c1\<lparr>calls := calls ?c1 @ [(3, ref ?c1)]\<rparr>)"
    by blast
  then have B: "subscribe inert (Many []) 3 ?c1 =
      Done \<lparr>subs = [''a'' \<mapsto> [0]], ref = 0, calls = [(0, 0), (3, 0)],
            resetUpdates = False, updates = []\<rparr>"
    by (simp only: d)
  from t u1 have "invocations 3 (calls (renders1 inert ?r1 (world (subscribe inert (Many []) 3 ?c1)))) =
      invocations 3 (calls ?c1) + 1"
    by blast
  then have C: "invocations 3 (calls (renders1 inert ?r1 (world (subscribe inert (Many []) 3 ?c1)))) = 1"
    by (simp only: i1)
  from t u2 have "invocations 3 (calls (renders2 inert ?r2 (world (subscribe inert (Many []) 3 ?c2)))) =
      invocations 3 (calls ?c2) + 1"
    by blast
  then have D: "invocations 3 (calls (renders2 inert ?r2 (world (subscribe inert (Many []) 3 ?c2)))) = 1"
    by (simp only: i2)
  from A B C D show ?thesis by (intro conjI)
qed

end
